theory Spec2Isabelle
  imports Main "HOL-Library.Word"
begin

section \<open>JavaScript strings and the string primitives the client uses\<close>

text \<open>
  A JavaScript string is a sequence of UTF-16 code units; a code unit is modelled as a
  natural number. \<open>js\<close> turns an ASCII literal of the source into such a sequence.
\<close>

type_synonym jsstring = "nat list"

type_synonym byte = "8 word"

definition js :: "string \<Rightarrow> jsstring" where
  "js s = map of_char s"

text \<open>\<open>String(n)\<close> and \<open>${n}\<close> for a non-negative integer: its decimal digits.\<close>

function show_nat :: "nat \<Rightarrow> jsstring" where
  "show_nat n = (if n < 10 then [48 + n] else show_nat (n div 10) @ [48 + n mod 10])"
  by pat_completeness auto
termination
  by (relation "measure id") auto

declare show_nat.simps [simp del]

text \<open>
  \<open>s.indexOf(pat)\<close>: the position of the first occurrence of \<open>pat\<close> in \<open>s\<close>;
  \<open>None\<close> stands for the source's \<open>-1\<close>.
\<close>

fun starts_with :: "'a list \<Rightarrow> 'a list \<Rightarrow> bool" where
  "starts_with [] s = True"
| "starts_with (p # ps) [] = False"
| "starts_with (p # ps) (c # cs) = (p = c \<and> starts_with ps cs)"

fun indexOf :: "'a list \<Rightarrow> 'a list \<Rightarrow> nat option" where
  "indexOf pat [] = (if pat = [] then Some 0 else None)"
| "indexOf pat (c # cs) =
     (if starts_with pat (c # cs) then Some 0 else map_option Suc (indexOf pat cs))"

text \<open>\<open>s.split('\n')\<close>: the segments between line feeds; never an empty array.\<close>

fun split_lines :: "jsstring \<Rightarrow> jsstring list" where
  "split_lines [] = [[]]"
| "split_lines (c # cs) =
     (if c = 10 then [] # split_lines cs
      else (case split_lines cs of l # ls \<Rightarrow> (c # l) # ls | [] \<Rightarrow> [[c]]))"

text \<open>
  \<open>s.trim()\<close> removes leading and trailing white space and line terminators, as
  ECMAScript defines them.
\<close>

definition is_space :: "nat \<Rightarrow> bool" where
  "is_space c = (c = 9 \<or> c = 10 \<or> c = 11 \<or> c = 12 \<or> c = 13 \<or> c = 32 \<or> c = 160
     \<or> c = 5760 \<or> (8192 \<le> c \<and> c \<le> 8202) \<or> c = 8232 \<or> c = 8233 \<or> c = 8239
     \<or> c = 8287 \<or> c = 12288 \<or> c = 65279)"

definition trim :: "jsstring \<Rightarrow> jsstring" where
  "trim s = rev (dropWhile is_space (rev (dropWhile is_space s)))"

section \<open>Errors and outcomes\<close>

text \<open>
  A thrown JavaScript value is an error object with a name and a message;
  \<open>new_Error\<close> is the source's \<open>new Error(message)\<close>. A statement that may throw
  returns an outcome: the state it reached, and the error if it threw. The state is kept
  in both cases, since what was mutated before a throw stays mutated.
\<close>

datatype error = Error (err_name: jsstring) (err_message: jsstring)

definition new_Error :: "jsstring \<Rightarrow> error" where
  "new_Error msg = Error (js ''Error'') msg"

datatype 's outcome = Normal 's | Threw error 's

fun state_of :: "'s outcome \<Rightarrow> 's" where
  "state_of (Normal s) = s"
| "state_of (Threw e s) = s"

fun and_then :: "'s outcome \<Rightarrow> ('s \<Rightarrow> 's outcome) \<Rightarrow> 's outcome" where
  "and_then (Normal s) f = f s"
| "and_then (Threw e s) f = Threw e s"

text \<open>\<open>try { ... } finally { fin }\<close> for a \<open>fin\<close> that does not throw.\<close>

fun finally_do :: "'s outcome \<Rightarrow> ('s \<Rightarrow> 's) \<Rightarrow> 's outcome" where
  "finally_do (Normal s) fin = Normal (fin s)"
| "finally_do (Threw e s) fin = Threw e (fin s)"

text \<open>
  The engine's \<open>TypeError\<close> for reading a property of \<open>null\<close>. The wording is the
  engine's own; nothing below depends on it.
\<close>

definition null_read :: "string \<Rightarrow> error" where
  "null_read prop =
     Error (js ''TypeError'')
       (js ''Cannot read properties of null (reading '' @ [39] @ js prop @ [39] @ js '')'')"

section \<open>The state of the client\<close>

text \<open>
  An image is either a URL string (a generated image) or an uploaded image object, of
  which only the \<open>data\<close> URL matters here.
\<close>

datatype image = ImageUrl jsstring | Uploaded jsstring

datatype role = User | Assistant

text \<open>An entry of \<open>ChatManager.messageHistory\<close> (its timestamp is left out).\<close>

record message =
  m_role :: role
  m_content :: jsstring
  m_images :: "image list"

text \<open>
  A child of the \<open>chatMessages\<close> element. The typing indicator carries the classes
  \<open>message assistant typing-indicator\<close>, so the selector \<open>.message.assistant\<close>
  matches it as well as an assistant message.
\<close>

datatype elem_class = UserDiv | AssistantDiv | TypingIndicator

record element =
  e_class :: elem_class
  e_content :: jsstring
  e_images :: "image list"

text \<open>An entry of \<open>RegenerationManager.regenerationHistory\<close> (timestamp left out).\<close>

record response_version =
  v_content :: jsstring
  v_images :: "image list"

record user_message =
  u_content :: jsstring
  u_images :: "image list"

text \<open>
  What the browser was asked to do, in order: \<open>abort()\<close> on a controller, and a
  \<open>fetch\<close> of the chat endpoint with the signal of a controller (or with none).
\<close>

datatype event = AbortCalled nat | FetchIssued "nat option"

text \<open>
  The singletons \<open>APIService\<close>, \<open>ChatManager\<close> and \<open>RegenerationManager\<close>, and
  the part of the browser they act on. An \<open>AbortController\<close> is known by the number it
  was created with. The timers set by \<open>beginStream\<close> all run the same closure and none
  is ever cleared, so only their number is kept.
\<close>

record world =
  currentController :: "nat option"
  streamingActive :: bool
  messageHistory :: "message list"
  chatMessages :: "element list"
  isStreaming :: bool
  regenerationHistory :: "response_version list"
  currentResponseIndex :: int
  lastUserMessage :: "user_message option"
  log :: "event list"
  controllers :: nat
  timers :: nat

definition initial_world :: world where
  "initial_world = \<lparr>currentController = None, streamingActive = False, messageHistory = [],
     chatMessages = [], isStreaming = False, regenerationHistory = [],
     currentResponseIndex = - 1, lastUserMessage = None, log = [], controllers = 0,
     timers = 0\<rparr>"

section \<open>APIService: the stream session\<close>

text \<open>
  \<open>abortActive(reason, throwError)\<close>; \<open>reason\<close> is \<open>None\<close> when the argument is
  left out.
\<close>

definition abortActive :: "jsstring option \<Rightarrow> bool \<Rightarrow> world \<Rightarrow> world outcome" where
  "abortActive reason throwError w =
     (let w1 = (case currentController w of
                  Some c \<Rightarrow> w\<lparr>log := log w @ [AbortCalled c]\<rparr>
                | None \<Rightarrow> w);
          w2 = w1\<lparr>currentController := None, streamingActive := False\<rparr>
      in case reason of
           Some r \<Rightarrow> if r \<noteq> [] \<and> throwError
                     then Threw (new_Error (js ''Stream closed: '' @ r)) w2 else Normal w2
         | None \<Rightarrow> Normal w2)"

definition beginStream :: "world \<Rightarrow> world" where
  "beginStream w =
     (let w1 = state_of (abortActive None False w)
      in w1\<lparr>currentController := Some (controllers w1), controllers := Suc (controllers w1),
            streamingActive := True, timers := Suc (timers w1)\<rparr>)"

definition cleanupStreamState :: "world \<Rightarrow> world" where
  "cleanupStreamState w = w\<lparr>streamingActive := False, currentController := None\<rparr>"

text \<open>
  One of the pending timers of \<open>beginStream\<close> fires and runs
  \<open>this.abortActive('Timed out', true)\<close>; the error it throws is uncaught.
\<close>

definition timer_fires :: "world \<Rightarrow> world" where
  "timer_fires w =
     (if timers w = 0 then w
      else state_of (abortActive (Some (js ''Timed out'')) True (w\<lparr>timers := timers w - 1\<rparr>)))"

section \<open>ChatManager\<close>

text \<open>
  \<open>addMessageToChat(role, content, images)\<close> appends a message element to
  \<open>chatMessages\<close> and an entry to \<open>messageHistory\<close>. The \<open>chatMessages\<close> element
  exists once the application is initialised, so the early \<open>return null\<close> is not taken.
  The element returned is known by its position among the children.
\<close>

definition addMessageToChat :: "role \<Rightarrow> jsstring \<Rightarrow> image list \<Rightarrow> world \<Rightarrow> nat \<times> world" where
  "addMessageToChat r content imgs w =
     (length (chatMessages w),
      w\<lparr>chatMessages := chatMessages w @
            [\<lparr>e_class = (case r of User \<Rightarrow> UserDiv | Assistant \<Rightarrow> AssistantDiv),
              e_content = content, e_images = imgs\<rparr>],
        messageHistory := messageHistory w @
            [\<lparr>m_role = r, m_content = content, m_images = imgs\<rparr>]\<rparr>)"

definition is_assistant_div :: "element \<Rightarrow> bool" where
  "is_assistant_div e = (e_class e = AssistantDiv \<or> e_class e = TypingIndicator)"

text \<open>Apply \<open>f\<close> to the last element of a list that satisfies \<open>P\<close>, if there is one.\<close>

fun update_last :: "('a \<Rightarrow> bool) \<Rightarrow> ('a \<Rightarrow> 'a) \<Rightarrow> 'a list \<Rightarrow> 'a list" where
  "update_last P f [] = []"
| "update_last P f (x # xs) =
     (if list_ex P xs then x # update_last P f xs
      else if P x then f x # xs else x # xs)"

text \<open>Remove the last element of a list that satisfies \<open>P\<close>, if there is one.\<close>

fun remove_last :: "('a \<Rightarrow> bool) \<Rightarrow> 'a list \<Rightarrow> 'a list" where
  "remove_last P [] = []"
| "remove_last P (x # xs) =
     (if list_ex P xs then x # remove_last P xs
      else if P x then xs else x # xs)"

text \<open>
  \<open>updateLastAssistantMessage(content, images)\<close> sets the text of the last element
  matching \<open>.message.assistant\<close> and replaces its images.
\<close>

definition updateLastAssistantMessage :: "jsstring \<Rightarrow> image list \<Rightarrow> world \<Rightarrow> world" where
  "updateLastAssistantMessage content imgs w =
     w\<lparr>chatMessages := update_last is_assistant_div
          (\<lambda>e. e\<lparr>e_content := content, e_images := imgs\<rparr>) (chatMessages w)\<rparr>"

definition hideTypingIndicator :: "world \<Rightarrow> world" where
  "hideTypingIndicator w =
     w\<lparr>chatMessages := filter (\<lambda>e. e_class e \<noteq> TypingIndicator) (chatMessages w)\<rparr>"

definition showTypingIndicator :: "world \<Rightarrow> world" where
  "showTypingIndicator w =
     (let w1 = hideTypingIndicator w
      in w1\<lparr>chatMessages := chatMessages w1 @
            [\<lparr>e_class = TypingIndicator, e_content = js ''Assistant is typing...'',
              e_images = []\<rparr>]\<rparr>)"

definition setStreamingState :: "bool \<Rightarrow> world \<Rightarrow> world" where
  "setStreamingState b w = w\<lparr>isStreaming := b\<rparr>"

section \<open>RegenerationManager\<close>

text \<open>
  The regeneration controls are presentation only, so \<open>updateRegenerationControls\<close>
  leaves the state as it is and is not written out.
\<close>

definition storeLastUserMessage :: "user_message \<Rightarrow> world \<Rightarrow> world" where
  "storeLastUserMessage um w =
     w\<lparr>regenerationHistory := [], currentResponseIndex := - 1,
       lastUserMessage := Some \<lparr>u_content = u_content um, u_images = u_images um\<rparr>\<rparr>"

definition addResponseToHistory :: "jsstring \<Rightarrow> image list \<Rightarrow> world \<Rightarrow> world" where
  "addResponseToHistory content imgs w =
     (let h = regenerationHistory w @ [\<lparr>v_content = content, v_images = imgs\<rparr>]
      in w\<lparr>regenerationHistory := h, currentResponseIndex := int (length h) - 1\<rparr>)"

definition clearRegenerationHistory :: "world \<Rightarrow> world" where
  "clearRegenerationHistory w =
     w\<lparr>regenerationHistory := [], currentResponseIndex := - 1, lastUserMessage := None\<rparr>"

definition clearRegenerationHistoryOnly :: "world \<Rightarrow> world" where
  "clearRegenerationHistoryOnly w =
     w\<lparr>regenerationHistory := [], currentResponseIndex := - 1\<rparr>"

text \<open>
  \<open>updateChatHistoryWithCurrentResponse\<close> overwrites the content and images of the last
  assistant entry of the message history with the version under the cursor.
\<close>

definition updateChatHistoryWithCurrentResponse :: "world \<Rightarrow> world" where
  "updateChatHistoryWithCurrentResponse w =
     (if 0 \<le> currentResponseIndex w
         \<and> currentResponseIndex w < int (length (regenerationHistory w))
      then let response = regenerationHistory w ! nat (currentResponseIndex w)
           in w\<lparr>messageHistory := update_last (\<lambda>m. m_role m = Assistant)
                  (\<lambda>m. m\<lparr>m_content := v_content response, m_images := v_images response\<rparr>)
                  (messageHistory w)\<rparr>
      else w)"

text \<open>
  \<open>displayCurrentResponse\<close>; the callback \<open>onResponseChanged\<close> is the one the
  application installs, \<open>ChatManager.updateLastAssistantMessage\<close>.
\<close>

definition displayCurrentResponse :: "world \<Rightarrow> world" where
  "displayCurrentResponse w =
     (if 0 \<le> currentResponseIndex w
         \<and> currentResponseIndex w < int (length (regenerationHistory w))
      then let response = regenerationHistory w ! nat (currentResponseIndex w)
           in updateChatHistoryWithCurrentResponse
                (updateLastAssistantMessage (v_content response) (v_images response) w)
      else w)"

definition showPreviousResponse :: "world \<Rightarrow> world" where
  "showPreviousResponse w =
     (if currentResponseIndex w > 0
      then displayCurrentResponse (w\<lparr>currentResponseIndex := currentResponseIndex w - 1\<rparr>)
      else w)"

definition showNextResponse :: "world \<Rightarrow> world" where
  "showNextResponse w =
     (if currentResponseIndex w < int (length (regenerationHistory w)) - 1
      then displayCurrentResponse (w\<lparr>currentResponseIndex := currentResponseIndex w + 1\<rparr>)
      else w)"

section \<open>The decoded payload\<close>

text \<open>
  The value \<open>JSON.parse\<close> returns for a frame or a whole body, in the shape the client
  reads: an object with an optional \<open>choices\<close> array, whose elements have an optional
  \<open>delta\<close>, \<open>message\<close> and \<open>finish_reason\<close>. A field that is absent or
  \<open>null\<close> is \<open>None\<close>, and so is a \<open>null\<close> array element; a field that is present
  holds the JSON type the chat completions API gives it, and type tags are any strings.
  \<open>JsonNull\<close> is the value \<open>null\<close>; \<open>JsonPrimitive b\<close> is a number, string or
  boolean of truthiness \<open>b\<close>; an array, or an object without \<open>choices\<close>, is
  \<open>JsonObject None\<close>.
\<close>

record image_url =
  iu_url :: "jsstring option"

record part =
  p_type :: "jsstring option"
  p_text :: "jsstring option"
  p_image_url :: "image_url option"

datatype content = NoContent | StringContent jsstring | PartsContent "part option list"

record msg =
  d_content :: content
  d_images :: "part option list option"

record choice =
  c_delta :: "msg option"
  c_message :: "msg option"
  c_finish_reason :: "jsstring option"

datatype payload = JsonNull | JsonPrimitive bool | JsonObject "choice option list option"

text \<open>
  What \<open>onChunk\<close> receives from \<open>readSSE\<close>: a parsed frame, or the object
  \<open>{ json: json, fallback: true }\<close>.
\<close>

datatype 'o chunk = Frame 'o | FallbackJson 'o

fun truthy :: "payload \<Rightarrow> bool" where
  "truthy JsonNull = False"
| "truthy (JsonPrimitive b) = b"
| "truthy (JsonObject cs) = True"

text \<open>\<open>x.choices?.[0]\<close> for an \<open>x\<close> that is not \<open>null\<close>.\<close>

fun first_choice :: "payload \<Rightarrow> choice option" where
  "first_choice (JsonObject (Some (c # cs))) = c"
| "first_choice p = None"

text \<open>\<open>x.choices\<close> as the array a guard \<open>x.choices?.length > 0\<close> lets through.\<close>

fun choices_of :: "payload \<Rightarrow> choice option list" where
  "choices_of (JsonObject (Some cs)) = cs"
| "choices_of p = []"

definition truthy_url :: "image_url option \<Rightarrow> jsstring option" where
  "truthy_url iu = (case iu of None \<Rightarrow> None
     | Some u \<Rightarrow> (case iu_url u of None \<Rightarrow> None
         | Some url \<Rightarrow> if url = [] then None else Some url))"

text \<open>\<open>part?.type === 'output_text' && part.text\<close>, giving the text.\<close>

definition output_text :: "part option \<Rightarrow> jsstring option" where
  "output_text p = (case p of None \<Rightarrow> None
     | Some q \<Rightarrow> if p_type q = Some (js ''output_text'')
         then (case p_text q of None \<Rightarrow> None | Some t \<Rightarrow> if t = [] then None else Some t)
         else None)"

text \<open>\<open>part?.type === 'output_image' && part.image_url?.url\<close>, giving the URL.\<close>

definition output_image :: "part option \<Rightarrow> jsstring option" where
  "output_image p = (case p of None \<Rightarrow> None
     | Some q \<Rightarrow> if p_type q = Some (js ''output_image'') then truthy_url (p_image_url q)
         else None)"

text \<open>\<open>img?.type === 'image_url' && img.image_url?.url\<close>, giving the URL.\<close>

definition image_url_item :: "part option \<Rightarrow> jsstring option" where
  "image_url_item p = (case p of None \<Rightarrow> None
     | Some q \<Rightarrow> if p_type q = Some (js ''image_url'') then truthy_url (p_image_url q)
         else None)"

subsection \<open>APIService.extractTextFromMessage and extractImagesFromMessage\<close>

definition extractTextFromMessage :: "msg option \<Rightarrow> jsstring" where
  "extractTextFromMessage m = (case m of None \<Rightarrow> []
     | Some d \<Rightarrow> (case d_content d of
         StringContent s \<Rightarrow> s
       | PartsContent ps \<Rightarrow> concat (List.map_filter output_text ps)
       | NoContent \<Rightarrow> []))"

definition extractImagesFromMessage :: "msg option \<Rightarrow> jsstring list" where
  "extractImagesFromMessage m = (case m of None \<Rightarrow> []
     | Some d \<Rightarrow>
         (case d_content d of PartsContent ps \<Rightarrow> List.map_filter output_image ps | _ \<Rightarrow> [])
         @ (case d_images d of Some is \<Rightarrow> List.map_filter image_url_item is | None \<Rightarrow> []))"

section \<open>APIService.readSSE\<close>

text \<open>
  The browser primitives \<open>readSSE\<close> calls are parameters: \<open>JSON.parse\<close> (\<open>None\<close>
  when it throws), the \<open>TextDecoder\<close> used with \<open>{ stream: true }\<close>, as a machine that
  steps through bytes and emits code units, and the decoding \<open>response.text()\<close> does.
\<close>

record ('d, 'o) platform =
  JSON_parse :: "jsstring \<Rightarrow> 'o option"
  decoder_init :: 'd
  decoder_step :: "'d \<Rightarrow> byte \<Rightarrow> 'd \<times> jsstring"
  text_decode :: "byte list \<Rightarrow> jsstring"

text \<open>\<open>decoder.decode(bytes, { stream: true })\<close>.\<close>

fun decode :: "('d \<Rightarrow> byte \<Rightarrow> 'd \<times> jsstring) \<Rightarrow> 'd \<Rightarrow> byte list \<Rightarrow> 'd \<times> jsstring" where
  "decode step d [] = (d, [])"
| "decode step d (b # bs) =
     (case step d b of (d1, t1) \<Rightarrow>
        (case decode step d1 bs of (d2, t2) \<Rightarrow> (d2, t1 @ t2)))"

text \<open>
  What successive \<open>reader.read()\<close> calls give: a chunk of bytes, or a rejection. After
  the last element of the list the read reports \<open>done\<close>.
\<close>

datatype read_result = Value "byte list" | ReadFail error

record response =
  r_ok :: bool
  r_status :: nat
  r_contentType :: jsstring
  r_body :: "read_result list"

fun body_bytes :: "read_result list \<Rightarrow> error + byte list" where
  "body_bytes [] = Inr []"
| "body_bytes (Value bs # rs) =
     (case body_bytes rs of Inl e \<Rightarrow> Inl e | Inr cs \<Rightarrow> Inr (bs @ cs))"
| "body_bytes (ReadFail e # rs) = Inl e"

text \<open>\<open>response.text()\<close>.\<close>

definition response_text :: "('d, 'o) platform \<Rightarrow> response \<Rightarrow> error + jsstring" where
  "response_text P r =
     (case body_bytes (r_body r) of Inl e \<Rightarrow> Inl e | Inr bs \<Rightarrow> Inr (text_decode P bs))"

definition parseJsonOrThrow :: "('d, 'o) platform \<Rightarrow> response \<Rightarrow> error + 'o" where
  "parseJsonOrThrow P r =
     (case response_text P r of Inl e \<Rightarrow> Inl e
      | Inr t \<Rightarrow>
          if indexOf (js ''application/json'') (r_contentType r) = None
          then Inl (new_Error (js ''Expected JSON but got '' @ [34] @ r_contentType r @ [34]
                 @ js ''. Status '' @ show_nat (r_status r) @ js ''. Body:'' @ [10]
                 @ take 1000 t))
          else (case JSON_parse P t of
                  Some json \<Rightarrow> Inr json
                | None \<Rightarrow> Inl (new_Error (js ''Failed to parse JSON. Status ''
                    @ show_nat (r_status r) @ js ''. Body (truncated):'' @ [10]
                    @ take 1000 t))))"

text \<open>
  Where a loop of \<open>pump\<close> leaves off: it goes on with a value, or the enclosing callback
  returns after \<open>onDone()\<close> with the outcome of that call.
\<close>

datatype ('c, 's) flow = Continue 'c | Return "'s outcome"

text \<open>
  The \<open>for\<close> loop over the lines of one frame. An exception thrown by \<open>JSON.parse\<close> or
  by \<open>onChunk\<close> is caught and ignored; what \<open>onChunk\<close> did before throwing stays.
\<close>

fun process_lines :: "(jsstring \<Rightarrow> 'o option) \<Rightarrow> ('o chunk \<Rightarrow> 's \<Rightarrow> 's outcome)
    \<Rightarrow> (error option \<Rightarrow> 's \<Rightarrow> 's outcome) \<Rightarrow> jsstring list \<Rightarrow> 's \<Rightarrow> ('s, 's) flow" where
  "process_lines parse onChunk onDone [] s = Continue s"
| "process_lines parse onChunk onDone (l # ls) s =
     (let line = trim l in
      if indexOf (js ''data:'') line \<noteq> Some 0 then process_lines parse onChunk onDone ls s
      else let data = trim (drop 5 line) in
        if data = js ''[DONE]'' then Return (onDone None s)
        else (case parse data of
                None \<Rightarrow> process_lines parse onChunk onDone ls s
              | Some obj \<Rightarrow>
                  process_lines parse onChunk onDone ls (state_of (onChunk (Frame obj) s))))"

text \<open>The \<open>while\<close> loop that takes the frames off the front of the buffer.\<close>

function frames_loop :: "(jsstring \<Rightarrow> 'o option) \<Rightarrow> ('o chunk \<Rightarrow> 's \<Rightarrow> 's outcome)
    \<Rightarrow> (error option \<Rightarrow> 's \<Rightarrow> 's outcome) \<Rightarrow> jsstring \<Rightarrow> 's \<Rightarrow> (jsstring \<times> 's, 's) flow" where
  "frames_loop parse onChunk onDone buffer s =
     (if indexOf [10, 10] buffer = None then Continue (buffer, s)
      else let idx = the (indexOf [10, 10] buffer) in
        (case process_lines parse onChunk onDone (split_lines (take idx buffer)) s of
           Return out \<Rightarrow> Return out
         | Continue s1 \<Rightarrow> frames_loop parse onChunk onDone (drop (idx + 2) buffer) s1))"
  by pat_completeness auto
termination
proof (relation "measure (\<lambda>(parse, onChunk, onDone, buffer, s). length buffer)")
  show "wf (measure (\<lambda>(parse, onChunk, onDone, buffer, s). length buffer))"
    by simp
next
  fix parse :: "jsstring \<Rightarrow> 'o option" and onChunk :: "'o chunk \<Rightarrow> 's \<Rightarrow> 's outcome"
    and onDone :: "error option \<Rightarrow> 's \<Rightarrow> 's outcome" and buffer :: jsstring and s :: 's
    and idx and fl :: "('s, 's) flow" and s1 :: 's
  assume "indexOf [10, 10] buffer \<noteq> None"
  then have "buffer \<noteq> []"
    by (cases buffer) auto
  then show "((parse, onChunk, onDone, drop (idx + 2) buffer, s1),
              (parse, onChunk, onDone, buffer, s))
         \<in> measure (\<lambda>(parse, onChunk, onDone, buffer, s). length buffer)"
    by simp
qed

declare frames_loop.simps [simp del]

text \<open>
  \<open>pump\<close>: one \<open>reader.read()\<close> and its \<open>then\<close> callback, with the \<open>catch\<close> that
  hands a rejection to \<open>onDone\<close>.
\<close>

fun pump :: "('d, 'o) platform \<Rightarrow> ('o chunk \<Rightarrow> 's \<Rightarrow> 's outcome)
    \<Rightarrow> (error option \<Rightarrow> 's \<Rightarrow> 's outcome) \<Rightarrow> 'd \<Rightarrow> jsstring \<Rightarrow> read_result list \<Rightarrow> 's
    \<Rightarrow> 's outcome" where
  "pump P onChunk onDone d buffer [] s =
     (case onDone None s of Normal s1 \<Rightarrow> Normal s1 | Threw e s1 \<Rightarrow> onDone (Some e) s1)"
| "pump P onChunk onDone d buffer (ReadFail e # rs) s = onDone (Some e) s"
| "pump P onChunk onDone d buffer (Value bytes # rs) s =
     (case decode (decoder_step P) d bytes of (d1, t) \<Rightarrow>
        (case (case frames_loop (JSON_parse P) onChunk onDone (buffer @ t) s of
                 Return out \<Rightarrow> out
               | Continue (buffer1, s1) \<Rightarrow> pump P onChunk onDone d1 buffer1 rs s1) of
           Normal s2 \<Rightarrow> Normal s2
         | Threw e s2 \<Rightarrow> onDone (Some e) s2))"

definition readSSE :: "('d, 'o) platform \<Rightarrow> response \<Rightarrow> ('o chunk \<Rightarrow> 's \<Rightarrow> 's outcome)
    \<Rightarrow> (error option \<Rightarrow> 's \<Rightarrow> 's outcome) \<Rightarrow> 's \<Rightarrow> 's outcome" where
  "readSSE P r onChunk onDone s =
     (if \<not> r_ok r then
        (case response_text P r of
           Inl e \<Rightarrow> Threw e s
         | Inr t \<Rightarrow> Threw (new_Error (js ''HTTP '' @ show_nat (r_status r) @ [32, 8211, 32] @ t)) s)
      else if indexOf (js ''text/event-stream'') (r_contentType r) = None then
        (case parseJsonOrThrow P r of
           Inl e \<Rightarrow> Threw e s
         | Inr json \<Rightarrow> and_then (onChunk (FallbackJson json) s) (onDone None))
      else pump P onChunk onDone (decoder_init P) [] (r_body r) s)"

section \<open>The application: response handlers\<close>

text \<open>The variables the callbacks of a streaming handler close over.\<close>

record stream_vars =
  assistantMessageDiv :: "nat option"
  assistantContent :: jsstring
  assistantImages :: "image list"

definition fresh_vars :: stream_vars where
  "fresh_vars = \<lparr>assistantMessageDiv = None, assistantContent = [], assistantImages = []\<rparr>"

text \<open>
  \<open>if (!assistantMessageDiv) assistantMessageDiv = ChatManager.addMessageToChat('assistant', '')\<close>
\<close>

definition create_div_once :: "stream_vars \<times> world \<Rightarrow> stream_vars \<times> world" where
  "create_div_once s = (case s of (v, w) \<Rightarrow>
     (case assistantMessageDiv v of
        Some i \<Rightarrow> (v, w)
      | None \<Rightarrow> (case addMessageToChat Assistant [] [] w of
                   (i, w1) \<Rightarrow> (v\<lparr>assistantMessageDiv := Some i\<rparr>, w1))))"

text \<open>Appending a text fragment, as both streaming handlers do it.\<close>

definition append_text :: "jsstring \<Rightarrow> stream_vars \<times> world \<Rightarrow> stream_vars \<times> world" where
  "append_text t s = (case s of (v, w) \<Rightarrow>
     (case create_div_once (v\<lparr>assistantContent := assistantContent v @ t\<rparr>, w) of
        (v1, w1) \<Rightarrow> (v1, updateLastAssistantMessage (assistantContent v1) [] w1)))"

definition push_image :: "jsstring \<Rightarrow> stream_vars \<times> world \<Rightarrow> stream_vars \<times> world" where
  "push_image url s = (case s of (v, w) \<Rightarrow>
     (v\<lparr>assistantImages := assistantImages v @ [ImageUrl url]\<rparr>, w))"

text \<open>The loop \<open>for (const part of delta.content)\<close>, the same in both streaming handlers.\<close>

fun content_parts :: "part option list \<Rightarrow> stream_vars \<times> world \<Rightarrow> stream_vars \<times> world" where
  "content_parts [] s = s"
| "content_parts (p # ps) s =
     (let s1 = (case output_text p of Some t \<Rightarrow> append_text t s | None \<Rightarrow> s);
          s2 = (case output_image p of Some url \<Rightarrow> push_image url s1 | None \<Rightarrow> s1)
      in content_parts ps s2)"

text \<open>
  \<open>if (delta?.content?.length) for (const part of delta.content) ...\<close>. A string
  content is iterated character by character, and no character is a part.
\<close>

definition delta_content_parts :: "msg option \<Rightarrow> stream_vars \<times> world \<Rightarrow> stream_vars \<times> world" where
  "delta_content_parts delta s = (case delta of None \<Rightarrow> s
     | Some d \<Rightarrow> (case d_content d of PartsContent ps \<Rightarrow> content_parts ps s | _ \<Rightarrow> s))"

subsection \<open>handleStreamingResponse\<close>

text \<open>The chunk callback of \<open>handleStreamingResponse\<close>, after its fallback branch.\<close>

definition text_frame :: "payload \<Rightarrow> stream_vars \<times> world \<Rightarrow> stream_vars \<times> world" where
  "text_frame chunk s =
     (let choice = first_choice chunk;
          delta = (case choice of None \<Rightarrow> None | Some c \<Rightarrow> c_delta c);
          s1 = (case delta of None \<Rightarrow> s
                | Some d \<Rightarrow> (case d_content d of StringContent t \<Rightarrow> append_text t s | _ \<Rightarrow> s))
      in delta_content_parts delta s1)"

definition text_fallback :: "payload \<Rightarrow> stream_vars \<times> world \<Rightarrow> stream_vars \<times> world" where
  "text_fallback json s = (case s of (v, w) \<Rightarrow>
     (let message = (case first_choice json of None \<Rightarrow> None | Some c \<Rightarrow> c_message c);
          content = extractTextFromMessage message;
          images = extractImagesFromMessage message
      in (v, snd (addMessageToChat Assistant
                    (if content = [] then js ''[Empty response]'' else content)
                    (map ImageUrl images) w))))"

definition text_onChunk :: "payload chunk \<Rightarrow> stream_vars \<times> world
    \<Rightarrow> (stream_vars \<times> world) outcome" where
  "text_onChunk chunk s = (case chunk of
       FallbackJson json \<Rightarrow> Normal (if truthy json then text_fallback json s else s)
     | Frame JsonNull \<Rightarrow> Threw (null_read ''choices'') s
     | Frame p \<Rightarrow> Normal (text_frame p s))"

text \<open>
  The completion callback of \<open>handleStreamingResponse\<close>. It takes no argument, so an
  error passed by \<open>readSSE\<close> is not looked at.
\<close>

definition text_onDone :: "error option \<Rightarrow> stream_vars \<times> world
    \<Rightarrow> (stream_vars \<times> world) outcome" where
  "text_onDone err s = (case s of (v, w) \<Rightarrow>
     (let w1 = (if assistantImages v \<noteq> [] \<and> assistantMessageDiv v \<noteq> None
                then updateLastAssistantMessage (assistantContent v) (assistantImages v) w
                else w);
          w2 = (if messageHistory w1 = [] then w1
                else w1\<lparr>messageHistory := butlast (messageHistory w1) @
                       [(last (messageHistory w1))\<lparr>m_content := assistantContent v,
                          m_images := assistantImages v\<rparr>]\<rparr>)
      in Normal (v, addResponseToHistory (assistantContent v) (assistantImages v) w2)))"

subsection \<open>handleStreamingImageResponse\<close>

text \<open>\<open>Generated ${n} image(s):\<close>\<close>

definition generated_images :: "nat \<Rightarrow> jsstring" where
  "generated_images n = js ''Generated '' @ show_nat n @ js '' image(s):''"

text \<open>The loop \<open>for (const img of delta.images)\<close>.\<close>

fun delta_images :: "part option list \<Rightarrow> stream_vars \<times> world \<Rightarrow> stream_vars \<times> world" where
  "delta_images [] s = s"
| "delta_images (img # imgs) s =
     delta_images imgs
       (case image_url_item img of Some url \<Rightarrow> create_div_once (push_image url s) | None \<Rightarrow> s)"

text \<open>
  The loop \<open>for (const choice of chunk.choices)\<close>. \<open>choice.delta\<close> is read without
  \<open>?.\<close>, so a \<open>null\<close> choice throws and the choices after it are not reached.
\<close>

fun image_choices :: "choice option list \<Rightarrow> stream_vars \<times> world
    \<Rightarrow> (stream_vars \<times> world) outcome" where
  "image_choices [] s = Normal s"
| "image_choices (None # cs) s = Threw (null_read ''delta'') s"
| "image_choices (Some c # cs) s =
     (let delta = c_delta c;
          s1 = (case delta of None \<Rightarrow> s
                | Some d \<Rightarrow> (case d_images d of Some is \<Rightarrow> delta_images is s | None \<Rightarrow> s))
      in image_choices cs (delta_content_parts delta s1))"

text \<open>
  The fallback branch:
  \<open>for (const choice of chunk.json.choices) totalImages.push(...extractImagesFromMessage(choice.message))\<close>.
\<close>

fun total_images :: "choice option list \<Rightarrow> error + jsstring list" where
  "total_images [] = Inr []"
| "total_images (None # cs) = Inl (null_read ''message'')"
| "total_images (Some c # cs) =
     (case total_images cs of Inl e \<Rightarrow> Inl e
      | Inr imgs \<Rightarrow> Inr (extractImagesFromMessage (c_message c) @ imgs))"

definition images_summary :: "jsstring list \<Rightarrow> jsstring" where
  "images_summary totalImages =
     (if totalImages \<noteq> [] then generated_images (length totalImages)
      else js ''No images found in response.'')"

definition image_onChunk :: "payload chunk \<Rightarrow> stream_vars \<times> world
    \<Rightarrow> (stream_vars \<times> world) outcome" where
  "image_onChunk chunk s = (case chunk of
       FallbackJson json \<Rightarrow>
         (if truthy json then
            (case total_images (choices_of json) of
               Inl e \<Rightarrow> Threw e s
             | Inr totalImages \<Rightarrow>
                 Normal (fst s, snd (addMessageToChat Assistant (images_summary totalImages)
                                       (map ImageUrl totalImages) (snd s))))
          else Normal s)
     | Frame p \<Rightarrow> image_choices (choices_of p) s)"

definition image_onDone :: "error option \<Rightarrow> stream_vars \<times> world
    \<Rightarrow> (stream_vars \<times> world) outcome" where
  "image_onDone err s = (case s of (v, w) \<Rightarrow>
     (let shown = (if assistantContent v = [] then generated_images (length (assistantImages v))
                   else assistantContent v);
          w1 = (if assistantImages v \<noteq> [] \<and> assistantMessageDiv v \<noteq> None
                then updateLastAssistantMessage shown (assistantImages v) w
                else w)
      in Normal (v, addResponseToHistory shown (assistantImages v) w1)))"

subsection \<open>Requests and the four handlers\<close>

text \<open>
  \<open>sendChatCompletion\<close> issues the \<open>fetch\<close>; a streaming request carries the signal of
  the current controller. What the network answers is an input of the model: the
  \<open>fetch\<close> is rejected, or a response arrives.
\<close>

definition sendChatCompletion :: "bool \<Rightarrow> world \<Rightarrow> world" where
  "sendChatCompletion stream w =
     w\<lparr>log := log w @ [FetchIssued (if stream then currentController w else None)]\<rparr>"

datatype net = FetchRejected error | Responded response

definition drop_vars :: "(stream_vars \<times> world) outcome \<Rightarrow> world outcome" where
  "drop_vars out = (case out of Normal s \<Rightarrow> Normal (snd s) | Threw e s \<Rightarrow> Threw e (snd s))"

text \<open>
  \<open>handleStreamingResponse\<close> up to its first \<open>await\<close> (the session begins and the
  request is sent), and from there on, when the response is read to its end and nothing
  else runs in between. The section on runs in progress takes the reading apart, one
  \<open>reader.read()\<close> at a time.
\<close>

definition handleStreamingResponse_send :: "world \<Rightarrow> world" where
  "handleStreamingResponse_send w = sendChatCompletion True (beginStream w)"

definition handleStreamingResponse_receive :: "('d, payload) platform \<Rightarrow> net \<Rightarrow> world
    \<Rightarrow> world outcome" where
  "handleStreamingResponse_receive P n w = (case n of
       FetchRejected e \<Rightarrow> Threw e w
     | Responded r \<Rightarrow> drop_vars (readSSE P r text_onChunk text_onDone (fresh_vars, w)))"

definition handleStreamingResponse :: "('d, payload) platform \<Rightarrow> net \<Rightarrow> world \<Rightarrow> world outcome" where
  "handleStreamingResponse P n w =
     handleStreamingResponse_receive P n (handleStreamingResponse_send w)"

definition handleStreamingImageResponse_receive :: "('d, payload) platform \<Rightarrow> net \<Rightarrow> world
    \<Rightarrow> world outcome" where
  "handleStreamingImageResponse_receive P n w = (case n of
       FetchRejected e \<Rightarrow> Threw e w
     | Responded r \<Rightarrow> drop_vars (readSSE P r image_onChunk image_onDone (fresh_vars, w)))"

definition handleStreamingImageResponse :: "('d, payload) platform \<Rightarrow> net \<Rightarrow> world
    \<Rightarrow> world outcome" where
  "handleStreamingImageResponse P n w =
     handleStreamingImageResponse_receive P n (sendChatCompletion True (beginStream w))"

text \<open>
  The handlers of a buffered response, from the answer of the network on, and as a whole.
  The request of a buffered response carries no signal.
\<close>

definition handleNonStreamingResponse_receive :: "('d, payload) platform \<Rightarrow> net \<Rightarrow> world
    \<Rightarrow> world outcome" where
  "handleNonStreamingResponse_receive P n w = (case n of
       FetchRejected e \<Rightarrow> Threw e w
     | Responded r \<Rightarrow>
         (case parseJsonOrThrow P r of
            Inl e \<Rightarrow> Threw e w
          | Inr JsonNull \<Rightarrow> Threw (null_read ''choices'') w
          | Inr json \<Rightarrow>
              (let message = (case first_choice json of None \<Rightarrow> None | Some c \<Rightarrow> c_message c);
                   content = extractTextFromMessage message;
                   images = map ImageUrl (extractImagesFromMessage message);
                   shown = (if content = [] then js ''[Empty response]'' else content)
               in Normal (addResponseToHistory shown images
                            (snd (addMessageToChat Assistant shown images w))))))"

definition handleNonStreamingResponse :: "('d, payload) platform \<Rightarrow> net \<Rightarrow> world
    \<Rightarrow> world outcome" where
  "handleNonStreamingResponse P n w =
     handleNonStreamingResponse_receive P n (sendChatCompletion False w)"

definition handleNonStreamingImageResponse_receive :: "('d, payload) platform \<Rightarrow> net \<Rightarrow> world
    \<Rightarrow> world outcome" where
  "handleNonStreamingImageResponse_receive P n w = (case n of
       FetchRejected e \<Rightarrow> Threw e w
     | Responded r \<Rightarrow>
         (case parseJsonOrThrow P r of
            Inl e \<Rightarrow> Threw e w
          | Inr JsonNull \<Rightarrow> Threw (null_read ''choices'') w
          | Inr json \<Rightarrow>
              (case total_images (choices_of json) of
                 Inl e \<Rightarrow> Threw e w
               | Inr totalImages \<Rightarrow>
                   (let content = images_summary totalImages;
                        images = map ImageUrl totalImages
                    in Normal (addResponseToHistory content images
                                 (snd (addMessageToChat Assistant content images w)))))))"

definition handleNonStreamingImageResponse :: "('d, payload) platform \<Rightarrow> net \<Rightarrow> world
    \<Rightarrow> world outcome" where
  "handleNonStreamingImageResponse P n w =
     handleNonStreamingImageResponse_receive P n (sendChatCompletion False w)"

subsection \<open>The application's error handler\<close>

text \<open>
  \<open>handleError\<close>. For an error with an empty message \<open>String(error)\<close> is shown,
  which is then the name of the error.
\<close>

definition handleError :: "error \<Rightarrow> world \<Rightarrow> world" where
  "handleError e w =
     (let text = js ''Error: '' @ (if err_message e \<noteq> [] then err_message e else err_name e);
          w1 = snd (addMessageToChat Assistant text [] (hideTypingIndicator w))
      in cleanupStreamState (addResponseToHistory text [] w1))"

text \<open>\<open>ChatManager.clearChat\<close>, whose callback \<open>onChatCleared\<close> is \<open>handleClearChat\<close>.\<close>

definition clearChat :: "world \<Rightarrow> world" where
  "clearChat w = clearRegenerationHistory (w\<lparr>chatMessages := [], messageHistory := []\<rparr>)"

definition handleStopGeneration :: "world \<Rightarrow> world" where
  "handleStopGeneration w =
     hideTypingIndicator (setStreamingState False
       (state_of (abortActive (Some (js ''Stopped by user'')) False w)))"

section \<open>Runs in progress\<close>

text \<open>
  \<open>handleSendMessage\<close> and \<open>handleRegenerateResponse\<close> are \<open>async\<close>: a call
  returns at its first \<open>await\<close>, when the request has been issued, and the rest of the
  function runs later, piece by piece, each time the network settles the promise the
  function waits for. Between two pieces the browser runs whatever else is due: a click,
  a timer, a piece of another call. A call that has not ended is a run in progress. It
  waits either for the \<open>fetch\<close> to settle or, inside \<open>readSSE\<close>, for a
  \<open>reader.read()\<close>; in the second case it holds the variables of the handler, the
  decoder, the buffer, what the network has still to deliver, and the number of \<open>pump\<close>
  calls it is nested in.
\<close>

datatype 'd phase =
    Fetching
  | Reading stream_vars 'd jsstring "read_result list" nat
  | Ended

text \<open>
  A run knows its mode and whether it streams, the controller whose signal its request
  carries, and what the network answers to the request if it is not aborted.
\<close>

record 'd run =
  run_text :: bool
  run_stream :: bool
  run_signal :: "nat option"
  run_net :: net
  run_phase :: "'d phase"

record 'd app =
  world_of :: world
  runs :: "'d run list"

text \<open>
  Once \<open>abort()\<close> has been called on a controller, a pending \<open>fetch\<close> that carries
  its signal is rejected, and so is every later read of the body of its response. The
  error is a \<open>DOMException\<close> named \<open>AbortError\<close>; the wording of its message is the
  engine's own.
\<close>

definition abort_error :: error where
  "abort_error = Error (js ''AbortError'') (js ''The user aborted a request.'')"

definition aborted :: "nat option \<Rightarrow> world \<Rightarrow> bool" where
  "aborted sig w = (case sig of None \<Rightarrow> False | Some c \<Rightarrow> AbortCalled c \<in> set (log w))"

subsection \<open>One read of \<open>pump\<close>\<close>

text \<open>
  A rejection that leaves the callback of a \<open>pump\<close> nested in \<open>k\<close> others goes
  through the \<open>catch\<close> of each of them, and each hands it to \<open>onDone\<close>.
\<close>

fun catches :: "nat \<Rightarrow> (error option \<Rightarrow> 's \<Rightarrow> 's outcome) \<Rightarrow> 's outcome \<Rightarrow> 's outcome" where
  "catches 0 onDone out = out"
| "catches (Suc k) onDone out =
     catches k onDone (case out of Normal s \<Rightarrow> Normal s | Threw e s \<Rightarrow> onDone (Some e) s)"

text \<open>
  What \<open>pump\<close> does with the result of one \<open>reader.read()\<close>: it goes on to the next
  read, or the promise of \<open>readSSE\<close> settles.
\<close>

fun pump_step :: "('d, 'o) platform \<Rightarrow> ('o chunk \<Rightarrow> 's \<Rightarrow> 's outcome)
    \<Rightarrow> (error option \<Rightarrow> 's \<Rightarrow> 's outcome) \<Rightarrow> nat \<Rightarrow> 'd \<Rightarrow> jsstring \<Rightarrow> read_result list \<Rightarrow> 's
    \<Rightarrow> ('d \<times> jsstring \<times> read_result list \<times> 's, 's) flow" where
  "pump_step P onChunk onDone k d buffer [] s = Return (catches (Suc k) onDone (onDone None s))"
| "pump_step P onChunk onDone k d buffer (ReadFail e # rs) s =
     Return (catches k onDone (onDone (Some e) s))"
| "pump_step P onChunk onDone k d buffer (Value bytes # rs) s =
     (case decode (decoder_step P) d bytes of (d1, t) \<Rightarrow>
        (case frames_loop (JSON_parse P) onChunk onDone (buffer @ t) s of
           Return out \<Rightarrow> Return (catches (Suc k) onDone out)
         | Continue (buffer1, s1) \<Rightarrow> Continue (d1, buffer1, rs, s1)))"

subsection \<open>The pieces of a call\<close>

text \<open>
  \<open>runTextChat\<close> and \<open>runImageChat\<close> up to the first \<open>await\<close>: the request is
  issued, and the call is now a run in progress.
\<close>

record ui =
  ui_key :: jsstring
  ui_prompt :: jsstring
  ui_mode :: jsstring
  ui_model :: "jsstring option"
  ui_stream :: bool
  ui_uploaded :: "image list"

definition start_run :: "ui \<Rightarrow> net \<Rightarrow> 'd app \<Rightarrow> 'd app" where
  "start_run u n a =
     (let w1 = setStreamingState True (world_of a);
          w2 = (if ui_stream u then sendChatCompletion True (beginStream w1)
                else sendChatCompletion False w1)
      in a\<lparr>world_of := w2,
           runs := runs a @
             [\<lparr>run_text = (ui_mode u = js ''text''), run_stream = ui_stream u,
               run_signal = (if ui_stream u then currentController w2 else None),
               run_net = n, run_phase = Fetching\<rparr>]\<rparr>)"

text \<open>
  The end of a call: the \<open>finally\<close> of \<open>runTextChat\<close> or \<open>runImageChat\<close>, and the
  \<open>catch\<close> of the event handler.
\<close>

definition finish :: "world outcome \<Rightarrow> world" where
  "finish out =
     (case finally_do out (\<lambda>w. hideTypingIndicator (setStreamingState False w)) of
        Normal w \<Rightarrow> w
      | Threw e w \<Rightarrow> handleError e w)"

text \<open>
  The \<open>fetch\<close> of the run settles. A response that streams events makes \<open>readSSE\<close>
  wait for its first read. Any other response is first read to its end as a text, by
  \<open>response.text()\<close>, and the run does nothing until that promise settles too; the
  two are taken as one piece, which an abort before its end turns into a rejection.
\<close>

definition fetch_settles :: "('d, payload) platform \<Rightarrow> 'd run \<Rightarrow> world \<Rightarrow> 'd phase \<times> world" where
  "fetch_settles P r w =
     (let n = (if aborted (run_signal r) w then FetchRejected abort_error else run_net r) in
      if \<not> run_stream r then
        (Ended, finish (if run_text r then handleNonStreamingResponse_receive P n w
                        else handleNonStreamingImageResponse_receive P n w))
      else (case n of
          FetchRejected e \<Rightarrow> (Ended, finish (Threw e w))
        | Responded resp \<Rightarrow>
            if r_ok resp \<and> indexOf (js ''text/event-stream'') (r_contentType resp) \<noteq> None
            then (Reading fresh_vars (decoder_init P) [] (r_body resp) 0, w)
            else (Ended, finish (if run_text r then handleStreamingResponse_receive P n w
                                 else handleStreamingImageResponse_receive P n w))))"

text \<open>
  A \<open>reader.read()\<close> of the run settles: with a rejection if the request has been
  aborted, and else with what the network delivers next.
\<close>

definition read_settles :: "('d, payload) platform \<Rightarrow> 'd run \<Rightarrow> stream_vars \<Rightarrow> 'd \<Rightarrow> jsstring
    \<Rightarrow> read_result list \<Rightarrow> nat \<Rightarrow> world \<Rightarrow> 'd phase \<times> world" where
  "read_settles P r v d buffer body k w =
     (let body1 = (if aborted (run_signal r) w then ReadFail abort_error # body else body) in
      case (if run_text r then pump_step P text_onChunk text_onDone k d buffer body1 (v, w)
            else pump_step P image_onChunk image_onDone k d buffer body1 (v, w)) of
        Return out \<Rightarrow> (Ended, finish (drop_vars out))
      | Continue (d1, buffer1, rest, s1) \<Rightarrow> (Reading (fst s1) d1 buffer1 rest (Suc k), snd s1))"

text \<open>The promise the run \<open>i\<close> waits for settles, and the run goes on to its next \<open>await\<close>.\<close>

definition resume :: "('d, payload) platform \<Rightarrow> nat \<Rightarrow> 'd app \<Rightarrow> 'd app" where
  "resume P i a =
     (if i < length (runs a) then
        (let r = runs a ! i in
         case (case run_phase r of
                 Fetching \<Rightarrow> fetch_settles P r (world_of a)
               | Reading v d buffer body k \<Rightarrow> read_settles P r v d buffer body k (world_of a)
               | Ended \<Rightarrow> (Ended, world_of a)) of
           (ph, w1) \<Rightarrow> a\<lparr>world_of := w1, runs := (runs a)[i := r\<lparr>run_phase := ph\<rparr>]\<rparr>)
      else a)"

subsection \<open>The application's event handlers\<close>

text \<open>
  What a handler reads from the page is in \<open>ui\<close>: the trimmed API key and prompt, the
  mode, the selected model, the stream box and the uploaded images. Each handler is given
  up to its first \<open>await\<close>.
\<close>

definition handleSendMessage :: "ui \<Rightarrow> net \<Rightarrow> 'd app \<Rightarrow> 'd app" where
  "handleSendMessage u n a =
     (if ui_key u = [] then a
      else if ui_prompt u = [] \<and> ui_uploaded u = [] then a
      else if ui_model u = None then a
      else
        (let w = world_of a;
             w1 = storeLastUserMessage \<lparr>u_content = ui_prompt u, u_images = ui_uploaded u\<rparr> w;
             w2 = snd (addMessageToChat User (ui_prompt u) (ui_uploaded u) w1)
         in start_run u n (a\<lparr>world_of := showTypingIndicator w2\<rparr>)))"

definition handleRegenerateResponse :: "ui \<Rightarrow> net \<Rightarrow> 'd app \<Rightarrow> 'd app" where
  "handleRegenerateResponse u n a =
     (let w = world_of a in
      if lastUserMessage w = None then a
      else if ui_key u = [] \<or> ui_model u = None then a
      else
        (let w1 = (if messageHistory w \<noteq> [] \<and> m_role (last (messageHistory w)) = Assistant
                   then w\<lparr>messageHistory := butlast (messageHistory w),
                          chatMessages := remove_last is_assistant_div (chatMessages w)\<rparr>
                   else w)
         in start_run u n (a\<lparr>world_of := showTypingIndicator w1\<rparr>)))"

text \<open>
  \<open>RegenerationManager.regenerateLastResponse\<close>, with the callback the application
  installs as \<open>onRegenerateRequested\<close>.
\<close>

definition regenerateLastResponse :: "ui \<Rightarrow> net \<Rightarrow> 'd app \<Rightarrow> 'd app" where
  "regenerateLastResponse u n a =
     (if lastUserMessage (world_of a) = None then a else handleRegenerateResponse u n a)"

subsection \<open>What the browser runs, one piece after the other\<close>

text \<open>
  A click on a control, a deadline timer of \<open>beginStream\<close>, or the network settling the
  promise a run waits for. A click that sends or regenerates comes with what the page
  holds and with what the network will answer to the request.
\<close>

datatype input =
    Send ui net
  | Regenerate ui net
  | Stop
  | Previous
  | Next
  | Clear
  | Timer
  | Network nat

fun step :: "('d, payload) platform \<Rightarrow> input \<Rightarrow> 'd app \<Rightarrow> 'd app" where
  "step P (Send u n) a = handleSendMessage u n a"
| "step P (Regenerate u n) a = regenerateLastResponse u n a"
| "step P Stop a = a\<lparr>world_of := handleStopGeneration (world_of a)\<rparr>"
| "step P Previous a = a\<lparr>world_of := showPreviousResponse (world_of a)\<rparr>"
| "step P Next a = a\<lparr>world_of := showNextResponse (world_of a)\<rparr>"
| "step P Clear a = a\<lparr>world_of := clearChat (world_of a)\<rparr>"
| "step P Timer a = a\<lparr>world_of := timer_fires (world_of a)\<rparr>"
| "step P (Network i) a = resume P i a"

definition exec :: "('d, payload) platform \<Rightarrow> input list \<Rightarrow> 'd app \<Rightarrow> 'd app" where
  "exec P inputs a = fold (step P) inputs a"

definition initial_app :: "'d app" where
  "initial_app = \<lparr>world_of = initial_world, runs = []\<rparr>"

text \<open>
  A run is in progress until it has ended. The inputs called quiet are those that begin
  no run and do not empty the slot of the regeneration store: all but a new user turn, a
  regeneration and a clear. \<open>steps_left\<close> bounds the network events a run still
  needs before it ends.
\<close>

definition in_progress :: "'d run \<Rightarrow> bool" where
  "in_progress r = (run_phase r \<noteq> Ended)"

definition quiet :: "input \<Rightarrow> bool" where
  "quiet i = (case i of Send u n \<Rightarrow> False | Regenerate u n \<Rightarrow> False | Clear \<Rightarrow> False
     | _ \<Rightarrow> True)"

definition steps_left :: "'d run \<Rightarrow> nat" where
  "steps_left r = (case run_phase r of
       Fetching \<Rightarrow> (case run_net r of
           FetchRejected e \<Rightarrow> 1
         | Responded resp \<Rightarrow> length (r_body resp) + 2)
     | Reading v d buffer body k \<Rightarrow> Suc (length body)
     | Ended \<Rightarrow> 0)"


section \<open>The script the modules were split from\<close>

text \<open>
  The monolithic script keeps the same variables as the modules, and one more: the handle
  of the deadline timer. Its state is the state above together with that handle and the
  timers that are scheduled and have neither fired nor been cleared.
\<close>

record script =
  page :: world
  timeoutHandle :: "nat option"
  scheduled :: "nat list"
  timersMade :: nat

definition clearTimeout :: "nat option \<Rightarrow> nat list \<Rightarrow> nat list" where
  "clearTimeout h ts = (case h of None \<Rightarrow> ts | Some t \<Rightarrow> filter (\<lambda>x. x \<noteq> t) ts)"

definition script_cleanupStreamState :: "script \<Rightarrow> script" where
  "script_cleanupStreamState s =
     s\<lparr>page := (page s)\<lparr>streamingActive := False\<rparr>,
       scheduled := clearTimeout (timeoutHandle s) (scheduled s),
       timeoutHandle := None\<rparr>"

definition script_abortActive :: "jsstring option \<Rightarrow> script \<Rightarrow> script" where
  "script_abortActive reason s =
     (let w = page s;
          w1 = (case currentController w of
                  Some c \<Rightarrow> w\<lparr>log := log w @ [AbortCalled c]\<rparr>
                | None \<Rightarrow> w);
          w2 = w1\<lparr>currentController := None\<rparr>;
          w3 = (case reason of
                  None \<Rightarrow> w2
                | Some r \<Rightarrow> if r = [] then w2
                    else snd (addMessageToChat Assistant (js ''[Stream closed: '' @ r @ js '']'') []
                                (hideTypingIndicator w2)))
      in script_cleanupStreamState (s\<lparr>page := w3\<rparr>))"

definition script_beginStream :: "script \<Rightarrow> script" where
  "script_beginStream s =
     (let s1 = script_abortActive None s;
          w = page s1
      in s1\<lparr>page := w\<lparr>currentController := Some (controllers w),
                       controllers := Suc (controllers w), streamingActive := True\<rparr>,
            scheduled := clearTimeout (timeoutHandle s1) (scheduled s1) @ [timersMade s1],
            timeoutHandle := Some (timersMade s1),
            timersMade := Suc (timersMade s1)\<rparr>)"

text \<open>
  The timer \<open>t\<close> fires, which it does only while it is scheduled, and runs
  \<open>abortActive("Timed out")\<close>.
\<close>

definition script_timer_fires :: "nat \<Rightarrow> script \<Rightarrow> script" where
  "script_timer_fires t s =
     (if t \<in> set (scheduled s)
      then script_abortActive (Some (js ''Timed out'')) (s\<lparr>scheduled := remove1 t (scheduled s)\<rparr>)
      else s)"

text \<open>
  The chunk callback of the script's \<open>runChat\<close>, after its fallback branch. The text of
  the message element the callback created is set on that element.
\<close>

definition set_div_text :: "stream_vars \<times> world \<Rightarrow> stream_vars \<times> world" where
  "set_div_text s = (case s of (v, w) \<Rightarrow>
     (case assistantMessageDiv v of
        None \<Rightarrow> (v, w)
      | Some i \<Rightarrow> (v, w\<lparr>chatMessages := (chatMessages w)
                        [i := (chatMessages w ! i)\<lparr>e_content := assistantContent v\<rparr>]\<rparr>)))"

definition script_append_text :: "jsstring \<Rightarrow> stream_vars \<times> world \<Rightarrow> stream_vars \<times> world" where
  "script_append_text t s = (case s of (v, w) \<Rightarrow>
     set_div_text (create_div_once (v\<lparr>assistantContent := assistantContent v @ t\<rparr>, w)))"

fun script_content_parts :: "part option list \<Rightarrow> stream_vars \<times> world
    \<Rightarrow> stream_vars \<times> world" where
  "script_content_parts [] s = s"
| "script_content_parts (p # ps) s =
     (let s1 = (case output_text p of Some t \<Rightarrow> script_append_text t s | None \<Rightarrow> s);
          s2 = (case output_image p of Some url \<Rightarrow> push_image url s1 | None \<Rightarrow> s1)
      in script_content_parts ps s2)"

definition script_text_frame :: "payload \<Rightarrow> stream_vars \<times> world \<Rightarrow> stream_vars \<times> world" where
  "script_text_frame chunk s =
     (let choice = first_choice chunk;
          fin = (case choice of None \<Rightarrow> None | Some c \<Rightarrow> c_finish_reason c);
          s1 = (if fin = Some (js ''content_filter'') \<and> assistantMessageDiv (fst s) = None
                then (case addMessageToChat Assistant (js ''[Blocked by content filter]'') []
                             (snd s) of
                        (i, w1) \<Rightarrow> ((fst s)\<lparr>assistantMessageDiv := Some i\<rparr>, w1))
                else s);
          delta = (case choice of None \<Rightarrow> None | Some c \<Rightarrow> c_delta c);
          s2 = (case delta of None \<Rightarrow> s1
                | Some d \<Rightarrow> (case d_content d of
                      StringContent t \<Rightarrow> script_append_text t s1 | _ \<Rightarrow> s1))
      in (case delta of None \<Rightarrow> s2
          | Some d \<Rightarrow> (case d_content d of
                PartsContent ps \<Rightarrow> script_content_parts ps s2 | _ \<Rightarrow> s2)))"

text \<open>
  The completion callback of the script's \<open>runChat\<close>. It takes no argument either. It
  ends with \<open>cleanupStreamState\<close>. The message element is known by its position
  among the children, which is its position as long as no child before it is removed.
\<close>

definition script_onDone :: "error option \<Rightarrow> stream_vars \<times> script
    \<Rightarrow> (stream_vars \<times> script) outcome" where
  "script_onDone err s = (case s of (v, sc) \<Rightarrow>
     (let w = page sc;
          generated = generated_images (length (assistantImages v));
          labelled = (assistantImages v \<noteq> [] \<and> assistantMessageDiv v \<noteq> None
                      \<and> assistantContent v = []);
          w1 = (case assistantMessageDiv v of
                  None \<Rightarrow> w
                | Some i \<Rightarrow>
                    if assistantImages v = [] then w
                    else w\<lparr>chatMessages := (chatMessages w)
                           [i := (chatMessages w ! i)
                              \<lparr>e_images := e_images (chatMessages w ! i) @ assistantImages v,
                                e_content := (if assistantContent v = [] then generated
                                              else e_content (chatMessages w ! i))\<rparr>]\<rparr>);
          v1 = (if labelled then v\<lparr>assistantContent := generated\<rparr> else v);
          shown = (if assistantContent v1 = [] then generated else assistantContent v1);
          w2 = (if assistantMessageDiv v1 \<noteq> None
                   \<and> (assistantContent v1 \<noteq> [] \<or> assistantImages v1 \<noteq> [])
                then addResponseToHistory shown (assistantImages v1)
                  (if messageHistory w1 \<noteq> [] \<and> m_role (last (messageHistory w1)) = Assistant
                      \<and> m_content (last (messageHistory w1)) = []
                   then w1\<lparr>messageHistory := butlast (messageHistory w1) @
                          [(last (messageHistory w1))\<lparr>m_content := shown,
                             m_images := assistantImages v1\<rparr>]\<rparr>
                   else w1\<lparr>messageHistory := messageHistory w1 @
                          [\<lparr>m_role = Assistant, m_content = shown,
                            m_images = assistantImages v1\<rparr>]\<rparr>)
                else w1)
      in Normal (v1, script_cleanupStreamState (sc\<lparr>page := w2\<rparr>))))"


text \<open>
  The chunk callback of the script's \<open>runChat\<close>, and \<open>runChat\<close> for a streamed
  response from the answer of the network on, when nothing else runs in between: the
  typing indicator is removed, the response is read, and a rejection is passed on after
  \<open>cleanupStreamState\<close>.
\<close>

definition script_onChunk :: "payload chunk \<Rightarrow> stream_vars \<times> script
    \<Rightarrow> (stream_vars \<times> script) outcome" where
  "script_onChunk chunk s = (case s of (v, sc) \<Rightarrow>
     (case chunk of
        FallbackJson json \<Rightarrow>
          if truthy json then
            (let message = (case first_choice json of None \<Rightarrow> None | Some c \<Rightarrow> c_message c);
                 content = extractTextFromMessage message
             in Normal (v, sc\<lparr>page := snd (addMessageToChat Assistant
                  (if content = [] then js ''[Empty response]'' else content) [] (page sc))\<rparr>))
          else Normal s
      | Frame JsonNull \<Rightarrow> Threw (null_read ''choices'') s
      | Frame p \<Rightarrow> (case script_text_frame p (v, page sc) of
                      (v1, w1) \<Rightarrow> Normal (v1, sc\<lparr>page := w1\<rparr>))))"

definition script_runChat_receive :: "('d, payload) platform \<Rightarrow> net \<Rightarrow> script
    \<Rightarrow> script outcome" where
  "script_runChat_receive P n s = (case n of
       FetchRejected e \<Rightarrow> Threw e (script_cleanupStreamState s)
     | Responded r \<Rightarrow>
         (case readSSE P r script_onChunk script_onDone
                 (fresh_vars, s\<lparr>page := hideTypingIndicator (page s)\<rparr>) of
            Normal s1 \<Rightarrow> Normal (snd s1)
          | Threw e s1 \<Rightarrow> Threw e (script_cleanupStreamState (snd s1))))"

text \<open>
  The script's \<open>regenerateLastResponse\<close>: its guard, and the rest of the function as
  \<open>continue\<close>.
\<close>

definition script_regenerateLastResponse :: "(world \<Rightarrow> world) \<Rightarrow> world \<Rightarrow> world" where
  "script_regenerateLastResponse continue w =
     (if lastUserMessage w = None then w else continue w)"

section \<open>What a choice carries\<close>

text \<open>
  The text fragments and the image references of one choice of a streamed payload: a
  string content or the \<open>output_text\<close> parts of its delta; the \<open>image_url\<close> items of
  \<open>delta.images\<close> and the \<open>output_image\<close> parts.
\<close>

definition choice_text :: "choice option \<Rightarrow> jsstring" where
  "choice_text c = (case c of None \<Rightarrow> []
     | Some ch \<Rightarrow> (case c_delta ch of None \<Rightarrow> []
         | Some d \<Rightarrow> (case d_content d of
               StringContent t \<Rightarrow> t
             | PartsContent ps \<Rightarrow> concat (List.map_filter output_text ps)
             | NoContent \<Rightarrow> [])))"

definition choice_part_text :: "choice option \<Rightarrow> jsstring" where
  "choice_part_text c = (case c of None \<Rightarrow> []
     | Some ch \<Rightarrow> (case c_delta ch of None \<Rightarrow> []
         | Some d \<Rightarrow> (case d_content d of
               PartsContent ps \<Rightarrow> concat (List.map_filter output_text ps)
             | _ \<Rightarrow> [])))"

definition choice_images :: "choice option \<Rightarrow> image list" where
  "choice_images c = (case c of None \<Rightarrow> []
     | Some ch \<Rightarrow> (case c_delta ch of None \<Rightarrow> []
         | Some d \<Rightarrow>
             map ImageUrl
               ((case d_images d of Some is \<Rightarrow> List.map_filter image_url_item is | None \<Rightarrow> [])
                @ (case d_content d of
                     PartsContent ps \<Rightarrow> List.map_filter output_image ps | _ \<Rightarrow> []))))"

text \<open>The cursor of the regeneration store is within the version list.\<close>

definition cursor_ok :: "world \<Rightarrow> bool" where
  "cursor_ok w =
     (if regenerationHistory w = [] then currentResponseIndex w = - 1
      else 0 \<le> currentResponseIndex w
         \<and> currentResponseIndex w < int (length (regenerationHistory w)))"

text \<open>
  The current controller, if there is one, was created by \<open>new AbortController()\<close> and
  has not been aborted; and so was every controller that has been aborted.
\<close>

definition created_before :: "nat \<Rightarrow> event \<Rightarrow> bool" where
  "created_before n e = (case e of AbortCalled c \<Rightarrow> c < n | FetchIssued sig \<Rightarrow> True)"

definition session_ok :: "world \<Rightarrow> bool" where
  "session_ok w =
     ((case currentController w of None \<Rightarrow> True
       | Some c \<Rightarrow> c < controllers w \<and> AbortCalled c \<notin> set (log w))
      \<and> list_all (created_before (controllers w)) (log w))"

text \<open>
  The script keeps at most one deadline timer scheduled, the one its handle names.
\<close>

definition timer_ok :: "script \<Rightarrow> bool" where
  "timer_ok s = list_all (\<lambda>t. timeoutHandle s = Some t) (scheduled s)"


section \<open>Example states\<close>

text \<open>
  A conversation of one user turn that has been answered twice: the versions \<open>A\<close> and
  \<open>B\<close>, with \<open>B\<close> shown.
\<close>

definition one_turn :: world where
  "one_turn =
     snd (addMessageToChat User (js ''hi'') []
            (storeLastUserMessage \<lparr>u_content = js ''hi'', u_images = []\<rparr> initial_world))"

definition two_versions :: world where
  "two_versions =
     addResponseToHistory (js ''B'') []
       (addResponseToHistory (js ''A'') []
          (snd (addMessageToChat Assistant (js ''B'') [] one_turn)))"

section \<open>An instance of the browser primitives\<close>

text \<open>
  The UTF-8 decoder of the Encoding standard as a machine that steps through bytes
  (without the removal of a byte order mark), for the examples.
\<close>

record utf8_state =
  needed :: nat
  seen :: nat
  code_point :: nat
  lower :: nat
  upper :: nat

definition utf8_start :: utf8_state where
  "utf8_start = \<lparr>needed = 0, seen = 0, code_point = 0, lower = 128, upper = 191\<rparr>"

definition utf16 :: "nat \<Rightarrow> jsstring" where
  "utf16 cp = (if cp < 65536 then [cp]
     else [55296 + (cp - 65536) div 1024, 56320 + (cp - 65536) mod 1024])"

definition utf8_lead :: "nat \<Rightarrow> utf8_state \<times> jsstring" where
  "utf8_lead b =
     (if b \<le> 127 then (utf8_start, [b])
      else if 194 \<le> b \<and> b \<le> 223 then (utf8_start\<lparr>needed := 1, code_point := b - 192\<rparr>, [])
      else if 224 \<le> b \<and> b \<le> 239 then
        (utf8_start\<lparr>needed := 2, code_point := b - 224,
           lower := (if b = 224 then 160 else 128), upper := (if b = 237 then 159 else 191)\<rparr>, [])
      else if 240 \<le> b \<and> b \<le> 244 then
        (utf8_start\<lparr>needed := 3, code_point := b - 240,
           lower := (if b = 240 then 144 else 128), upper := (if b = 244 then 143 else 191)\<rparr>, [])
      else (utf8_start, [65533]))"

definition utf8_step :: "utf8_state \<Rightarrow> byte \<Rightarrow> utf8_state \<times> jsstring" where
  "utf8_step st byte =
     (let b = unat byte in
      if needed st = 0 then utf8_lead b
      else if b < lower st \<or> upper st < b then
        (case utf8_lead b of (st1, out) \<Rightarrow> (st1, 65533 # out))
      else
        (let cp = code_point st * 64 + (b - 128) in
         if Suc (seen st) \<noteq> needed st
         then (st\<lparr>code_point := cp, seen := Suc (seen st), lower := 128, upper := 191\<rparr>, [])
         else (utf8_start, utf16 cp)))"

text \<open>
  A JSON document is written with a backquote for each double quote. \<open>example_parse\<close>
  agrees with \<open>JSON.parse\<close> on the documents of the examples, and fails on any other
  text, as \<open>JSON.parse\<close> does on a text that is not JSON.
\<close>

definition json_text :: "string \<Rightarrow> jsstring" where
  "json_text s = map (\<lambda>c. if c = 96 then 34 else c) (js s)"

definition ascii_bytes :: "jsstring \<Rightarrow> byte list" where
  "ascii_bytes s = map of_nat s"

definition delta_text :: "jsstring \<Rightarrow> payload" where
  "delta_text t = JsonObject (Some [Some \<lparr>c_delta = Some \<lparr>d_content = StringContent t,
     d_images = None\<rparr>, c_message = None, c_finish_reason = None\<rparr>])"

definition example_parse :: "jsstring \<Rightarrow> payload option" where
  "example_parse t =
     (if t = json_text ''{`choices`:[{`delta`:{`content`:`Hel`}}]}''
        then Some (delta_text (js ''Hel''))
      else if t = json_text ''{`choices`:[{`delta`:{`content`:`lo`}}]}''
        then Some (delta_text (js ''lo''))
      else if t = json_text ''{`choices`:[{`delta`:{`content`:`'' @ [233] @ json_text ''`}}]}''
        then Some (delta_text [233])
      else None)"

definition example_platform :: "(utf8_state, payload) platform" where
  "example_platform = \<lparr>JSON_parse = example_parse, decoder_init = utf8_start,
     decoder_step = utf8_step, text_decode = (\<lambda>bs. snd (decode utf8_step utf8_start bs))\<rparr>"

text \<open>Callbacks that keep the chunks they are given, in order.\<close>

definition record_chunk :: "'o chunk \<Rightarrow> 'o chunk list \<Rightarrow> 'o chunk list outcome" where
  "record_chunk c tr = Normal (tr @ [c])"

definition record_done :: "error option \<Rightarrow> 'o chunk list \<Rightarrow> 'o chunk list outcome" where
  "record_done e tr = Normal tr"

definition event_stream :: "read_result list \<Rightarrow> response" where
  "event_stream body = \<lparr>r_ok = True, r_status = 200, r_contentType = js ''text/event-stream'',
     r_body = body\<rparr>"

text \<open>The frames \<open>Hel\<close>, \<open>lo\<close> and \<open>[DONE]\<close> of the specification's scenario.\<close>

definition hello_stream :: "byte list" where
  "hello_stream =
     ascii_bytes (js ''data: '' @ json_text ''{`choices`:[{`delta`:{`content`:`Hel`}}]}'' @ [10, 10]
       @ js ''data: '' @ json_text ''{`choices`:[{`delta`:{`content`:`lo`}}]}'' @ [10, 10]
       @ js ''data: [DONE]'' @ [10, 10])"

definition example_ui :: ui where
  "example_ui = \<lparr>ui_key = js ''sk-or-1'', ui_prompt = js ''hi'', ui_mode = js ''text'',
     ui_model = Some (js ''openrouter/auto''), ui_stream = True, ui_uploaded = []\<rparr>"

section \<open>What a handler leaves alone\<close>

text \<open>
  \<open>keeps_store w0 w\<close>: the regeneration store, the stream session and the log of \<open>w\<close>
  are those of \<open>w0\<close>. \<open>one_version_added w0 w\<close>: the same, but for one version appended
  to the history, with the cursor on it.
\<close>

definition keeps_store :: "world \<Rightarrow> world \<Rightarrow> bool" where
  "keeps_store w0 w =
     (regenerationHistory w = regenerationHistory w0
      \<and> currentResponseIndex w = currentResponseIndex w0
      \<and> lastUserMessage w = lastUserMessage w0
      \<and> log w = log w0 \<and> currentController w = currentController w0
      \<and> streamingActive w = streamingActive w0
      \<and> controllers w = controllers w0 \<and> timers w = timers w0)"

definition one_version_added :: "world \<Rightarrow> world \<Rightarrow> bool" where
  "one_version_added w0 w =
     (length (regenerationHistory w) = Suc (length (regenerationHistory w0))
      \<and> butlast (regenerationHistory w) = regenerationHistory w0
      \<and> currentResponseIndex w = int (length (regenerationHistory w0))
      \<and> lastUserMessage w = lastUserMessage w0
      \<and> log w = log w0 \<and> currentController w = currentController w0
      \<and> streamingActive w = streamingActive w0
      \<and> controllers w = controllers w0 \<and> timers w = timers w0)"

section \<open>Auxiliary notions for the decoder\<close>

text \<open>A completion callback that returns normally on every call.\<close>

definition never_throws :: "(error option \<Rightarrow> 's \<Rightarrow> 's outcome) \<Rightarrow> bool" where
  "never_throws od = (\<forall>e s. \<exists>s1. od e s = Normal s1)"

text \<open>
  A stream of one frame whose text is \<open>U+00E9\<close>, then \<open>[DONE]\<close>, cut into three chunks:
  inside the two bytes of the character, and inside the blank line that ends the frame.
\<close>

definition accent_chunks :: "byte list list" where
  "accent_chunks =
     [ascii_bytes (js ''data: '' @ json_text ''{`choices`:[{`delta`:{`content`:`'') @ [195],
      [169] @ ascii_bytes (json_text ''`}}]}'' @ [10]),
      ascii_bytes ([10] @ js ''data: [DONE]'' @ [10, 10])]"

section \<open>Auxiliary notions for the handlers\<close>

text \<open>
  What a handler that was given the state \<open>w\<close> has done to the store: when it returns,
  one version was added; when it throws, nothing was.
\<close>

definition handled :: "world \<Rightarrow> world outcome \<Rightarrow> bool" where
  "handled w out = (case out of
       Normal w1 \<Rightarrow> one_version_added w w1
     | Threw e w1 \<Rightarrow> keeps_store w w1)"

text \<open>The regeneration store of \<open>w1\<close> is that of \<open>w\<close> with one version appended.\<close>

definition appended :: "world \<Rightarrow> world \<Rightarrow> bool" where
  "appended w w1 =
     (length (regenerationHistory w1) = Suc (length (regenerationHistory w))
      \<and> butlast (regenerationHistory w1) = regenerationHistory w
      \<and> currentResponseIndex w1 = int (length (regenerationHistory w))
      \<and> lastUserMessage w1 = lastUserMessage w)"

definition same_regen :: "world \<Rightarrow> world \<Rightarrow> bool" where
  "same_regen w w1 =
     (regenerationHistory w1 = regenerationHistory w
      \<and> currentResponseIndex w1 = currentResponseIndex w
      \<and> lastUserMessage w1 = lastUserMessage w)"

text \<open>
  \<open>ends_run w w1\<close>: the step from \<open>w\<close> to \<open>w1\<close> has appended one version and
  called neither \<open>abort()\<close> nor \<open>fetch\<close>. \<open>displayed v w\<close>: the version \<open>v\<close>
  written into the last assistant element of the page and the last assistant entry of the
  message history, where there are such. \<open>stored_after_abort r\<close>: the version a run
  stores when the promise it waits for is rejected after an abort, which is what the run
  has accumulated if it was reading, and the error message if it was waiting for
  \<open>fetch\<close>.
\<close>

definition ends_run :: "world \<Rightarrow> world \<Rightarrow> bool" where
  "ends_run w w1 =
     (appended w w1 \<and> log w1 = log w \<and> controllers w1 = controllers w
      \<and> timers w1 = timers w)"

definition displayed :: "response_version \<Rightarrow> world \<Rightarrow> world" where
  "displayed v w =
     w\<lparr>chatMessages := update_last is_assistant_div
          (\<lambda>e. e\<lparr>e_content := v_content v, e_images := v_images v\<rparr>) (chatMessages w),
       messageHistory := update_last (\<lambda>m. m_role m = Assistant)
          (\<lambda>m. m\<lparr>m_content := v_content v, m_images := v_images v\<rparr>) (messageHistory w)\<rparr>"

definition stored_after_abort :: "'d run \<Rightarrow> response_version" where
  "stored_after_abort r = (case run_phase r of
       Reading v d buffer body k \<Rightarrow>
         \<lparr>v_content = (if run_text r \<or> assistantContent v \<noteq> [] then assistantContent v
                        else generated_images (length (assistantImages v))),
           v_images = assistantImages v\<rparr>
     | _ \<Rightarrow> \<lparr>v_content = js ''Error: '' @ err_message abort_error, v_images = []\<rparr>)"


text \<open>Choices and a frame for the examples.\<close>

definition text_choice :: "jsstring \<Rightarrow> choice option" where
  "text_choice t = Some \<lparr>c_delta = Some \<lparr>d_content = StringContent t, d_images = None\<rparr>,
     c_message = None, c_finish_reason = None\<rparr>"

definition image_choice :: "jsstring \<Rightarrow> choice option" where
  "image_choice url = Some \<lparr>c_delta = Some \<lparr>d_content = NoContent,
       d_images = Some [Some \<lparr>p_type = Some (js ''image_url''), p_text = None,
         p_image_url = Some \<lparr>iu_url = Some url\<rparr>\<rparr>]\<rparr>,
     c_message = None, c_finish_reason = None\<rparr>"

definition blocked_frame :: payload where
  "blocked_frame = JsonObject (Some [Some \<lparr>c_delta = Some \<lparr>d_content = NoContent,
     d_images = None\<rparr>, c_message = None, c_finish_reason = Some (js ''content_filter'')\<rparr>])"

section \<open>Examples of responses and sessions\<close>

text \<open>
  The response of the scenario, in one chunk, and the script after its \<open>beginStream\<close>.
\<close>

definition hello_net :: net where
  "hello_net = Responded (event_stream [Value hello_stream])"

definition script_start :: script where
  "script_start = script_beginStream
     \<lparr>page = one_turn, timeoutHandle = None, scheduled = [], timersMade = 0\<rparr>"

section \<open>Frames as the stream carries them\<close>

text \<open>
  The text of a stream whose frames are \<open>fs\<close>, each followed by a blank line. A frame
  proper holds no blank line and does not end in a line feed.
\<close>

definition stream_text :: "jsstring list \<Rightarrow> jsstring" where
  "stream_text fs = concat (map (\<lambda>f. f @ [10, 10]) fs)"

definition is_frame :: "jsstring \<Rightarrow> bool" where
  "is_frame f = (indexOf [10, 10] (f @ [10]) = None)"

text \<open>
  A frame as the server writes it: one line or more, each of them not empty and without a
  line feed, joined by line feeds.
\<close>

fun join_lines :: "jsstring list \<Rightarrow> jsstring" where
  "join_lines [] = []"
| "join_lines [l] = l"
| "join_lines (l # ls) = l @ [10] @ join_lines ls"

definition proper_line :: "jsstring \<Rightarrow> bool" where
  "proper_line l = (l \<noteq> [] \<and> 10 \<notin> set l)"

definition frame_lines :: "jsstring list \<Rightarrow> bool" where
  "frame_lines ls = (ls \<noteq> [] \<and> list_all proper_line ls)"

text \<open>
  A data line is a line that starts with \<open>data:\<close> once the white space around it is
  removed; its payload is what follows, without the white space around it. The line
  that ends the stream has the payload \<open>[DONE]\<close>. What a line delivers is its payload
  parsed, if it is a data line and the payload is valid JSON.
\<close>

definition data_line :: "jsstring \<Rightarrow> bool" where
  "data_line l = (indexOf (js ''data:'') (trim l) = Some 0)"

definition done_line :: "jsstring \<Rightarrow> bool" where
  "done_line l = (data_line l \<and> trim (drop 5 (trim l)) = js ''[DONE]'')"

definition line_payload :: "(jsstring \<Rightarrow> 'o option) \<Rightarrow> jsstring \<Rightarrow> 'o option" where
  "line_payload parse l = (if data_line l then parse (trim (drop 5 (trim l))) else None)"

text \<open>The payloads a list of frames delivers, in the order of the stream.\<close>

definition delivered :: "(jsstring \<Rightarrow> 'o option) \<Rightarrow> jsstring list list \<Rightarrow> 'o list" where
  "delivered parse fs = List.map_filter (line_payload parse) (concat fs)"

text \<open>The chunk callback called on each of a list of payloads, in order.\<close>

definition deliver :: "('o chunk \<Rightarrow> 's \<Rightarrow> 's outcome) \<Rightarrow> 'o list \<Rightarrow> 's \<Rightarrow> 's" where
  "deliver onChunk os s = fold (\<lambda>obj s1. state_of (onChunk (Frame obj) s1)) os s"

text \<open>
  A malformed frame: it has a data line, and no data line of it has a payload that is
  valid JSON (or \<open>[DONE]\<close>).
\<close>

definition bad_lines :: "(jsstring \<Rightarrow> 'o option) \<Rightarrow> jsstring list \<Rightarrow> bool" where
  "bad_lines parse ls =
     (frame_lines ls \<and> list_ex data_line ls
      \<and> list_all (\<lambda>l. \<not> done_line l \<and> line_payload parse l = None) ls)"

text \<open>
  Two frames of the scenario, a frame whose payload is not JSON, and a frame of two
  lines. The stream of the frames \<open>Hel\<close>, the malformed one, the one of two lines and
  \<open>[DONE]\<close> comes in three chunks, cut inside a blank line and inside a line.
\<close>

definition hel_frame :: jsstring where
  "hel_frame = js ''data: '' @ json_text ''{`choices`:[{`delta`:{`content`:`Hel`}}]}''"

definition lo_frame :: jsstring where
  "lo_frame = js ''data: '' @ json_text ''{`choices`:[{`delta`:{`content`:`lo`}}]}''"

definition bad_frame :: jsstring where
  "bad_frame = js ''data: {oops''"

definition event_frame :: "jsstring list" where
  "event_frame = [js ''event: message'', lo_frame]"

definition skipping_chunks :: "byte list list" where
  "skipping_chunks =
     [ascii_bytes (hel_frame @ [10]),
      ascii_bytes ([10] @ bad_frame @ [10, 10] @ js ''event: mess''),
      ascii_bytes (js ''age'' @ [10] @ lo_frame @ [10, 10] @ js ''data: [DONE]'' @ [10, 10])]"

section \<open>Examples of runs\<close>

text \<open>
  \<open>answered\<close>: the user has sent \<open>hi\<close> and the answer \<open>Hello\<close> has been read to
  its end. \<open>regenerating\<close>: from there, a regeneration whose response has begun to
  arrive. \<open>untracked\<close>: from \<open>answered\<close>, the user sends \<open>more\<close>, clicks the
  regeneration button of the first answer while that request is pending, and the
  rejection of the aborted request has been handled. \<open>half_read\<close>: the user has sent
  \<open>hi\<close> and the first of the two chunks of the response has been read. \<open>shown_A\<close>:
  the versions \<open>A\<close> and \<open>B\<close>, with \<open>A\<close> shown, and no run in progress.
\<close>

definition more_ui :: ui where
  "more_ui = example_ui\<lparr>ui_prompt := js ''more''\<rparr>"

definition hello_run :: "nat \<Rightarrow> utf8_state phase \<Rightarrow> utf8_state run" where
  "hello_run c ph = \<lparr>run_text = True, run_stream = True, run_signal = Some c,
     run_net = hello_net, run_phase = ph\<rparr>"

definition answered :: "utf8_state app" where
  "answered = exec example_platform [Send example_ui hello_net, Network 0, Network 0] initial_app"

definition regenerating :: "utf8_state app" where
  "regenerating = exec example_platform [Network 0, Network 1]
     (regenerateLastResponse example_ui hello_net answered)"

definition untracked :: "utf8_state app" where
  "untracked = exec example_platform
     [Send more_ui hello_net, Regenerate more_ui hello_net, Network 1] answered"

definition slow_net :: net where
  "slow_net = Responded (event_stream
     [Value (ascii_bytes (stream_text [hel_frame])),
      Value (ascii_bytes (stream_text [lo_frame, js ''data: [DONE]'']))])"

definition slow_run :: "utf8_state phase \<Rightarrow> utf8_state run" where
  "slow_run ph = \<lparr>run_text = True, run_stream = True, run_signal = Some 0,
     run_net = slow_net, run_phase = ph\<rparr>"

definition half_read :: "utf8_state app" where
  "half_read = exec example_platform [Send example_ui slow_net, Network 0, Network 0] initial_app"

definition shown_A :: "utf8_state app" where
  "shown_A = \<lparr>world_of = showPreviousResponse two_versions, runs = []\<rparr>"


section \<open>The regeneration store\<close>

lemma displayCurrentResponse_regen [simp]:
  "regenerationHistory (displayCurrentResponse w) = regenerationHistory w"
  "currentResponseIndex (displayCurrentResponse w) = currentResponseIndex w"
  "lastUserMessage (displayCurrentResponse w) = lastUserMessage w"
  by (simp_all add: displayCurrentResponse_def updateChatHistoryWithCurrentResponse_def
        updateLastAssistantMessage_def Let_def)

lemma cursor_ok_initial: "cursor_ok initial_world"
  by (simp add: cursor_ok_def initial_world_def)

lemma cursor_ok_addResponseToHistory: "cursor_ok (addResponseToHistory c imgs w)"
  by (simp add: cursor_ok_def addResponseToHistory_def Let_def)

lemma cursor_ok_storeLastUserMessage: "cursor_ok (storeLastUserMessage um w)"
  by (simp add: cursor_ok_def storeLastUserMessage_def)

lemma cursor_ok_clearRegenerationHistory:
  "cursor_ok (clearRegenerationHistory w)" "cursor_ok (clearRegenerationHistoryOnly w)"
  by (simp_all add: cursor_ok_def clearRegenerationHistory_def clearRegenerationHistoryOnly_def)

lemma cursor_ok_showPreviousResponse: "cursor_ok w \<Longrightarrow> cursor_ok (showPreviousResponse w)"
  by (auto simp: cursor_ok_def showPreviousResponse_def)

lemma cursor_ok_showNextResponse: "cursor_ok w \<Longrightarrow> cursor_ok (showNextResponse w)"
  by (auto simp: cursor_ok_def showNextResponse_def)

text \<open>
  Claim C8. In a state of the regeneration store whose version list is not empty and
  whose cursor is within it, \<open>showPreviousResponse\<close> and \<open>showNextResponse\<close> leave the
  cursor within \<open>[0, len - 1]\<close> and the version list as it is. Called at its boundary,
  each leaves the whole state unchanged: the cursor, the version list and the message
  history; so does either on a slot with a single version.
\<close>

theorem cursor_stays_in_bounds:
  assumes "cursor_ok w" and "regenerationHistory w \<noteq> []"
  shows "0 \<le> currentResponseIndex (showPreviousResponse w)
       \<and> currentResponseIndex (showPreviousResponse w) < int (length (regenerationHistory w))
       \<and> 0 \<le> currentResponseIndex (showNextResponse w)
       \<and> currentResponseIndex (showNextResponse w) < int (length (regenerationHistory w))
       \<and> regenerationHistory (showPreviousResponse w) = regenerationHistory w
       \<and> regenerationHistory (showNextResponse w) = regenerationHistory w
       \<and> (currentResponseIndex w = 0 \<longrightarrow> showPreviousResponse w = w)
       \<and> (currentResponseIndex w = int (length (regenerationHistory w)) - 1
            \<longrightarrow> showNextResponse w = w)
       \<and> (length (regenerationHistory w) = 1
            \<longrightarrow> showPreviousResponse w = w \<and> showNextResponse w = w)"
  using assms
  by (auto simp: cursor_ok_def showPreviousResponse_def showNextResponse_def)

theorem cursor_stays_in_bounds_witness:
  "cursor_ok two_versions \<and> regenerationHistory two_versions \<noteq> []
   \<and> currentResponseIndex two_versions = int (length (regenerationHistory two_versions)) - 1
   \<and> showNextResponse two_versions = two_versions
   \<and> 0 \<le> currentResponseIndex (showPreviousResponse two_versions)
   \<and> currentResponseIndex (showPreviousResponse two_versions)
        < int (length (regenerationHistory two_versions))"
proof -
  have ok: "cursor_ok two_versions"
    by (simp add: two_versions_def cursor_ok_addResponseToHistory)
  have ne: "regenerationHistory two_versions \<noteq> []"
    by (simp add: two_versions_def addResponseToHistory_def Let_def)
  have at_end: "currentResponseIndex two_versions
      = int (length (regenerationHistory two_versions)) - 1"
    by (simp add: two_versions_def addResponseToHistory_def Let_def)
  from cursor_stays_in_bounds [OF ok ne] ok ne at_end show ?thesis
    by blast
qed

text \<open>
  Claim C10. With no user turn stored (\<open>lastUserMessage\<close> is \<open>null\<close>),
  \<open>regenerateLastResponse\<close> changes nothing: no request is logged, no run begins, and
  the regeneration history, the cursor and the message history are as before. The same
  holds of the application's \<open>handleRegenerateResponse\<close> and of the script's function.
\<close>

theorem regenerate_without_user_turn:
  assumes "lastUserMessage (world_of a) = None"
  shows "regenerateLastResponse u n a = a
       \<and> handleRegenerateResponse u n a = a
       \<and> step P (Regenerate u n) a = a
       \<and> script_regenerateLastResponse continue (world_of a) = world_of a"
  using assms
  by (simp add: regenerateLastResponse_def handleRegenerateResponse_def
        script_regenerateLastResponse_def)

theorem regenerate_without_user_turn_witness:
  "lastUserMessage (world_of (initial_app :: utf8_state app)) = None
   \<and> regenerateLastResponse example_ui (Responded (event_stream [Value hello_stream]))
         (initial_app :: utf8_state app) = initial_app
   \<and> handleRegenerateResponse example_ui (Responded (event_stream [Value hello_stream]))
         (initial_app :: utf8_state app) = initial_app
   \<and> step example_platform (Regenerate example_ui (Responded (event_stream [Value hello_stream])))
         initial_app = initial_app
   \<and> script_regenerateLastResponse clearChat (world_of (initial_app :: utf8_state app))
       = world_of (initial_app :: utf8_state app)"
proof -
  have none: "lastUserMessage (world_of (initial_app :: utf8_state app)) = None"
    by (simp add: initial_app_def initial_world_def)
  from regenerate_without_user_turn [OF none, where P = example_platform] none show ?thesis
    by blast
qed

section \<open>The frame decoder\<close>

lemma starts_with_append: "starts_with pat s \<Longrightarrow> starts_with pat (s @ t)"
  by (induction pat s rule: starts_with.induct) auto

lemma starts_with_length: "starts_with pat s \<Longrightarrow> length pat \<le> length s"
  by (induction pat s rule: starts_with.induct) auto

lemma starts_with_short:
  "starts_with pat (s @ t) \<Longrightarrow> length pat \<le> length s \<Longrightarrow> starts_with pat s"
  by (induction pat s rule: starts_with.induct) auto

lemma indexOf_bound: "indexOf pat s = Some i \<Longrightarrow> i + length pat \<le> length s"
proof (induction s arbitrary: i)
  case Nil
  then show ?case by (auto split: if_splits)
next
  case (Cons c cs)
  then show ?case
    by (auto split: if_splits dest: starts_with_length)
qed

lemma indexOf_append: "indexOf pat s = Some i \<Longrightarrow> indexOf pat (s @ t) = Some i"
proof (induction s arbitrary: i)
  case Nil
  then show ?case by (cases t) (auto split: if_splits)
next
  case (Cons c cs)
  show ?case
  proof (cases "starts_with pat (c # cs)")
    case True
    with Cons.prems starts_with_append [OF True, of t] show ?thesis by simp
  next
    case False
    with Cons.prems obtain j where j: "indexOf pat cs = Some j" "i = Suc j"
      by auto
    from indexOf_bound [OF j(1)] have "length pat \<le> length (c # cs)" by simp
    with False have "\<not> starts_with pat ((c # cs) @ t)"
      using starts_with_short by blast
    with Cons.IH [OF j(1)] j show ?thesis by simp
  qed
qed

lemma frames_loop_None:
  "indexOf [10, 10] buffer = None \<Longrightarrow> frames_loop parse oc od buffer s = Continue (buffer, s)"
  by (subst frames_loop.simps) simp

lemma frames_loop_Some:
  "indexOf [10, 10] buffer = Some idx \<Longrightarrow>
   frames_loop parse oc od buffer s =
     (case process_lines parse oc od (split_lines (take idx buffer)) s of
        Return out \<Rightarrow> Return out
      | Continue s1 \<Rightarrow> frames_loop parse oc od (drop (idx + 2) buffer) s1)"
  by (subst frames_loop.simps) simp

lemma frames_loop_append:
  "frames_loop parse oc od (a @ b) s =
     (case frames_loop parse oc od a s of
        Return out \<Rightarrow> Return out
      | Continue rs \<Rightarrow> frames_loop parse oc od (fst rs @ b) (snd rs))"
proof (induction parse oc od a s rule: frames_loop.induct)
  case (1 parse onChunk onDone buffer s)
  show ?case
  proof (cases "indexOf [10, 10] buffer")
    case None
    then show ?thesis
      by (simp add: frames_loop_None)
  next
    case (Some idx)
    from indexOf_bound [OF Some] have len: "idx + 2 \<le> length buffer" by simp
    have ix: "indexOf [10, 10] (buffer @ b) = Some idx"
      by (rule indexOf_append [OF Some])
    have tk: "take idx (buffer @ b) = take idx buffer" using len by simp
    have dr: "drop (idx + 2) (buffer @ b) = drop (idx + 2) buffer @ b" using len by simp
    show ?thesis
    proof (cases "process_lines parse onChunk onDone (split_lines (take idx buffer)) s")
      case (Continue s1)
      from Some have ne: "indexOf [10, 10] buffer \<noteq> None" and the: "the (indexOf [10, 10] buffer) = idx"
        by simp_all
      have IH: "frames_loop parse onChunk onDone (drop (idx + 2) buffer @ b) s1 =
        (case frames_loop parse onChunk onDone (drop (idx + 2) buffer) s1 of
           Return out \<Rightarrow> Return out
         | Continue rs \<Rightarrow> frames_loop parse onChunk onDone (fst rs @ b) (snd rs))"
        using "1.IH" [OF ne the [symmetric] Continue] .
      show ?thesis
        by (simp only: frames_loop_Some [OF ix] frames_loop_Some [OF Some] tk dr Continue IH flow.case)
    next
      case (Return out)
      show ?thesis
        by (simp only: frames_loop_Some [OF ix] frames_loop_Some [OF Some] tk Return flow.case)
    qed
  qed
qed


lemma process_lines_Return:
  "process_lines parse oc od ls s = Return out \<Longrightarrow> \<exists>s0. out = od None s0"
  by (induction ls arbitrary: s) (auto simp: Let_def split: if_splits option.splits)

lemma frames_loop_Return:
  "frames_loop parse oc od buffer s = Return out \<Longrightarrow> \<exists>s0. out = od None s0"
proof (induction parse oc od buffer s rule: frames_loop.induct)
  case (1 parse onChunk onDone buffer s)
  show ?case
  proof (cases "indexOf [10, 10] buffer")
    case None
    with "1.prems" show ?thesis by (simp add: frames_loop_None)
  next
    case (Some idx)
    show ?thesis
    proof (cases "process_lines parse onChunk onDone (split_lines (take idx buffer)) s")
      case (Continue s1)
      from Some have ne: "indexOf [10, 10] buffer \<noteq> None"
        and the: "idx = the (indexOf [10, 10] buffer)"
        by simp_all
      from "1.prems" have "frames_loop parse onChunk onDone (drop (idx + 2) buffer) s1 = Return out"
        by (simp add: frames_loop_Some [OF Some] Continue)
      then show ?thesis
        by (rule "1.IH" [OF ne the Continue])
    next
      case (Return out1)
      with "1.prems" have "out = out1"
        by (simp add: frames_loop_Some [OF Some])
      with Return show ?thesis
        by (auto dest: process_lines_Return)
    qed
  qed
qed

lemma frames_loop_Continue:
  "frames_loop parse oc od buffer s = Continue (r, s1) \<Longrightarrow> indexOf [10, 10] r = None"
proof (induction parse oc od buffer s rule: frames_loop.induct)
  case (1 parse onChunk onDone buffer s)
  show ?case
  proof (cases "indexOf [10, 10] buffer")
    case None
    with "1.prems" show ?thesis by (simp add: frames_loop_None)
  next
    case (Some idx)
    show ?thesis
    proof (cases "process_lines parse onChunk onDone (split_lines (take idx buffer)) s")
      case (Continue s2)
      from Some have ne: "indexOf [10, 10] buffer \<noteq> None"
        and the: "idx = the (indexOf [10, 10] buffer)"
        by simp_all
      from "1.prems"
      have "frames_loop parse onChunk onDone (drop (idx + 2) buffer) s2 = Continue (r, s1)"
        by (simp add: frames_loop_Some [OF Some] Continue)
      then show ?thesis
        by (rule "1.IH" [OF ne the Continue])
    next
      case (Return out1)
      with "1.prems" show ?thesis
        by (simp add: frames_loop_Some [OF Some])
    qed
  qed
qed

lemma decode_append:
  "decode f d (a @ b) =
     (case decode f d a of (d1, t1) \<Rightarrow>
        (case decode f d1 b of (d2, t2) \<Rightarrow> (d2, t1 @ t2)))"
  by (induction a arbitrary: d) (auto split: prod.splits)

lemma pump_Normal:
  assumes "never_throws od"
  shows "\<exists>s1. pump P oc od d buffer rs s = Normal s1"
proof (induction rs arbitrary: d buffer s)
  case Nil
  from assms obtain s1 where "od None s = Normal s1"
    unfolding never_throws_def by blast
  then show ?case by simp
next
  case (Cons r rs)
  show ?case
  proof (cases r)
    case (ReadFail e)
    with assms show ?thesis unfolding never_throws_def by simp
  next
    case (Value bytes)
    obtain d1 t where dec: "decode (decoder_step P) d bytes = (d1, t)"
      by (cases "decode (decoder_step P) d bytes")
    show ?thesis
    proof (cases "frames_loop (JSON_parse P) oc od (buffer @ t) s")
      case (Return out)
      from frames_loop_Return [OF Return] assms obtain s1 where "out = Normal s1"
        unfolding never_throws_def by metis
      with Value dec Return show ?thesis by simp
    next
      case (Continue bs)
      obtain b1 s1 where bs: "bs = (b1, s1)" by (cases bs)
      from Cons.IH [of d1 b1 s1] obtain s2 where "pump P oc od d1 b1 rs s1 = Normal s2"
        by blast
      with Value dec Continue bs show ?thesis by simp
    qed
  qed
qed

lemma pump_Value:
  assumes "never_throws od"
  shows "pump P oc od d buffer (Value bytes # rs) s =
     (case decode (decoder_step P) d bytes of (d1, t) \<Rightarrow>
        (case frames_loop (JSON_parse P) oc od (buffer @ t) s of
           Return out \<Rightarrow> out
         | Continue bs \<Rightarrow> pump P oc od d1 (fst bs) rs (snd bs)))"
proof -
  obtain d1 t where dec: "decode (decoder_step P) d bytes = (d1, t)"
    by (cases "decode (decoder_step P) d bytes")
  show ?thesis
  proof (cases "frames_loop (JSON_parse P) oc od (buffer @ t) s")
    case (Return out)
    from frames_loop_Return [OF Return] assms obtain s1 where "out = Normal s1"
      unfolding never_throws_def by metis
    with dec Return show ?thesis by simp
  next
    case (Continue bs)
    obtain b1 s1 where bs: "bs = (b1, s1)" by (cases bs)
    from pump_Normal [OF assms, of P oc d1 b1 rs s1]
    obtain s2 where "pump P oc od d1 b1 rs s1 = Normal s2"
      by blast
    with dec Continue bs show ?thesis by simp
  qed
qed

lemma catch_Normal:
  assumes "never_throws od"
  shows "(case pump P oc od d buffer rs s of Normal x \<Rightarrow> Normal x | Threw e x \<Rightarrow> od (Some e) x)
         = pump P oc od d buffer rs s"
proof -
  from pump_Normal [OF assms, of P oc d buffer rs s]
  obtain s1 where "pump P oc od d buffer rs s = Normal s1" by blast
  then show ?thesis by simp
qed

lemma pump_two:
  assumes "never_throws od"
  shows "pump P oc od d buffer (Value c1 # Value c2 # rs) s =
         pump P oc od d buffer (Value (c1 @ c2) # rs) s"
proof -
  obtain d1 t1 where dec1: "decode (decoder_step P) d c1 = (d1, t1)"
    by (cases "decode (decoder_step P) d c1")
  obtain d2 t2 where dec2: "decode (decoder_step P) d1 c2 = (d2, t2)"
    by (cases "decode (decoder_step P) d1 c2")
  have dec: "decode (decoder_step P) d (c1 @ c2) = (d2, t1 @ t2)"
    by (simp add: decode_append dec1 dec2)
  have fl: "frames_loop (JSON_parse P) oc od (buffer @ t1 @ t2) s =
     (case frames_loop (JSON_parse P) oc od (buffer @ t1) s of
        Return out \<Rightarrow> Return out
      | Continue bs \<Rightarrow> frames_loop (JSON_parse P) oc od (fst bs @ t2) (snd bs))"
    using frames_loop_append [of "JSON_parse P" oc od "buffer @ t1" t2 s] by simp
  have lhs: "pump P oc od d buffer (Value c1 # Value c2 # rs) s =
     (case frames_loop (JSON_parse P) oc od (buffer @ t1) s of
        Return out \<Rightarrow> out
      | Continue bs \<Rightarrow>
          (case frames_loop (JSON_parse P) oc od (fst bs @ t2) (snd bs) of
             Return out \<Rightarrow> out
           | Continue bs2 \<Rightarrow> pump P oc od d2 (fst bs2) rs (snd bs2)))"
    by (simp only: pump_Value [OF assms] dec1 dec2 prod.case)
  have rhs: "pump P oc od d buffer (Value (c1 @ c2) # rs) s =
     (case frames_loop (JSON_parse P) oc od (buffer @ t1 @ t2) s of
        Return out \<Rightarrow> out
      | Continue bs2 \<Rightarrow> pump P oc od d2 (fst bs2) rs (snd bs2))"
    by (simp only: pump_Value [OF assms] dec prod.case append_assoc)
  show ?thesis
    unfolding lhs rhs fl
    by (cases "frames_loop (JSON_parse P) oc od (buffer @ t1) s") simp_all
qed

lemma pump_chunks:
  assumes "never_throws od"
  shows "indexOf [10, 10] buffer = None \<Longrightarrow>
     pump P oc od d buffer (map Value cs @ rs) s =
     pump P oc od d buffer (Value (concat cs) # rs) s"
proof (induction cs arbitrary: d buffer s)
  case Nil
  have "pump P oc od d buffer (Value [] # rs) s = pump P oc od d buffer rs s"
    by (simp only: pump_Value [OF assms] decode.simps prod.case append_Nil2
          frames_loop_None [OF Nil] flow.case fst_conv snd_conv)
  then show ?case by simp
next
  case (Cons c cs)
  obtain d1 t1 where dec1: "decode (decoder_step P) d c = (d1, t1)"
    by (cases "decode (decoder_step P) d c")
  have "pump P oc od d buffer (Value c # map Value cs @ rs) s =
        pump P oc od d buffer (Value c # Value (concat cs) # rs) s"
  proof (cases "frames_loop (JSON_parse P) oc od (buffer @ t1) s")
    case (Return out)
    then show ?thesis
      by (simp only: pump_Value [OF assms, of P oc d buffer c] dec1 prod.case flow.case)
  next
    case (Continue bs)
    obtain b1 s1 where bs: "bs = (b1, s1)" by (cases bs)
    from Continue bs have "indexOf [10, 10] b1 = None"
      by (auto dest: frames_loop_Continue)
    from Cons.IH [OF this, of d1 s1] Continue bs show ?thesis
      by (simp only: pump_Value [OF assms, of P oc d buffer c] dec1 prod.case flow.case
            fst_conv snd_conv)
  qed
  also have "\<dots> = pump P oc od d buffer (Value (c @ concat cs) # rs) s"
    by (rule pump_two [OF assms])
  finally show ?case by simp
qed

lemma body_bytes_chunks:
  "body_bytes (map Value cs @ rs) = body_bytes (Value (concat cs) # rs)"
  by (induction cs) (auto split: sum.splits)

text \<open>
  Claim C2. However the bytes of the body are cut into chunks, also inside the blank line
  between two frames or inside the bytes of one character, \<open>readSSE\<close> gives its chunk
  callback the same parsed payloads in the same order, and ends in the same state, as
  when the bytes arrive as one chunk. This holds of every body, not only of well-formed
  frames, for every chunk callback and every completion callback that does not throw,
  and also when the reads end in a failure (\<open>rest\<close>).
\<close>

theorem readSSE_chunk_boundaries:
  assumes "\<forall>e s. \<exists>s1. onDone e s = Normal s1"
  shows "readSSE P (r\<lparr>r_body := map Value cs @ rest\<rparr>) onChunk onDone s =
         readSSE P (r\<lparr>r_body := Value (concat cs) # rest\<rparr>) onChunk onDone s"
proof -
  from assms have nt: "never_throws onDone"
    by (simp add: never_throws_def)
  have pm: "pump P onChunk onDone (decoder_init P) [] (map Value cs @ rest) s =
        pump P onChunk onDone (decoder_init P) [] (Value (concat cs) # rest) s"
    by (rule pump_chunks [OF nt]) simp
  have tx: "response_text P (r\<lparr>r_body := map Value cs @ rest\<rparr>) =
        response_text P (r\<lparr>r_body := Value (concat cs) # rest\<rparr>)"
    by (simp add: response_text_def body_bytes_chunks del: body_bytes.simps)
  have pj: "parseJsonOrThrow P (r\<lparr>r_body := map Value cs @ rest\<rparr>) =
        parseJsonOrThrow P (r\<lparr>r_body := Value (concat cs) # rest\<rparr>)"
    by (simp add: parseJsonOrThrow_def tx cong: sum.case_cong if_cong option.case_cong)
  show ?thesis
    by (simp add: readSSE_def tx pj pm del: pump.simps cong: sum.case_cong if_cong)
qed


lemmas example_defs = readSSE_def event_stream_def example_platform_def ascii_bytes_def
    json_text_def js_def utf8_step_def utf8_lead_def utf8_start_def utf16_def frames_loop.simps
    example_parse_def delta_text_def trim_def is_space_def Let_def

theorem readSSE_chunk_boundaries_witness:
  "(\<forall>e s. \<exists>s1. record_done e (s :: payload chunk list) = Normal s1)
   \<and> readSSE example_platform (event_stream (map Value accent_chunks))
         record_chunk record_done []
       = readSSE example_platform (event_stream [Value (concat accent_chunks)])
           record_chunk record_done []
   \<and> readSSE example_platform (event_stream (map Value accent_chunks))
         record_chunk record_done []
       = Normal [Frame (delta_text [233])]"
proof -
  have total: "\<forall>e s. \<exists>s1. record_done e (s :: payload chunk list) = Normal s1"
    by (simp add: record_done_def)
  have chunked: "readSSE example_platform (event_stream (map Value accent_chunks))
         record_chunk record_done []
       = readSSE example_platform (event_stream [Value (concat accent_chunks)])
           record_chunk record_done []"
    using readSSE_chunk_boundaries [OF total, where P = example_platform and r = "event_stream []"
        and cs = accent_chunks and rest = "[]" and onChunk = record_chunk and s = "[]"]
    by (simp add: event_stream_def)
  have whole: "readSSE example_platform (event_stream [Value (concat accent_chunks)])
         record_chunk record_done [] = Normal [Frame (delta_text [233])]"
    by (simp add: example_defs accent_chunks_def record_chunk_def record_done_def)
  from total chunked whole show ?thesis
    by simp
qed

lemma is_frame_index:
  "is_frame f \<Longrightarrow> indexOf [10, 10] (f @ [10, 10] @ rest) = Some (length f)"
proof (induction f)
  case Nil
  then show ?case by simp
next
  case (Cons c f)
  from Cons.prems have no: "\<not> starts_with [10, 10] (c # f @ [10])"
    and tl: "is_frame f"
    by (auto simp: is_frame_def split: if_splits)
  from no have "\<not> starts_with [10, 10] (c # f @ [10, 10] @ rest)"
    by (cases f) auto
  with Cons.IH [OF tl] show ?case
    by simp
qed

lemma frames_loop_frame:
  assumes "is_frame f"
  shows "frames_loop parse oc od (f @ [10, 10] @ rest) s =
     (case process_lines parse oc od (split_lines f) s of
        Return out \<Rightarrow> Return out
      | Continue s1 \<Rightarrow> frames_loop parse oc od rest s1)"
proof -
  have dr: "drop (length f + 2) (f @ [10, 10] @ rest) = rest"
    by (simp add: numeral_2_eq_2)
  have tk: "take (length f) (f @ [10, 10] @ rest) = f"
    by simp
  show ?thesis
    unfolding frames_loop_Some [OF is_frame_index [OF assms, of rest]] dr tk ..
qed

lemma is_event_stream:
  "r_ok (event_stream body)" "r_body (event_stream body) = body"
  "indexOf (js ''text/event-stream'') (r_contentType (event_stream body)) = Some 0"
  by (simp_all add: event_stream_def js_def)

lemma ascii_decode:
  "list_all (\<lambda>c. c < 128) t \<Longrightarrow> decode utf8_step utf8_start (ascii_bytes t) = (utf8_start, t)"
proof (induction t)
  case Nil
  then show ?case by (simp add: ascii_bytes_def)
next
  case (Cons c t)
  then have c: "c < 128" and t: "list_all (\<lambda>c. c < 128) t"
    by simp_all
  from c have "unat (of_nat c :: byte) = c"
    by (simp add: unat_of_nat)
  with c have "utf8_step utf8_start (of_nat c) = (utf8_start, [c])"
    by (simp add: utf8_step_def utf8_lead_def utf8_start_def Let_def)
  with Cons.IH [OF t] show ?case
    by (simp add: ascii_bytes_def)
qed

lemma split_lines_line: "10 \<notin> set l \<Longrightarrow> split_lines l = [l]"
  by (induction l) auto

lemma split_lines_cons_line: "10 \<notin> set l \<Longrightarrow> split_lines (l @ 10 # t) = l # split_lines t"
  by (induction l) auto

lemma split_lines_join: "frame_lines ls \<Longrightarrow> split_lines (join_lines ls) = ls"
proof (induction ls rule: join_lines.induct)
  case 1
  then show ?case by (simp add: frame_lines_def)
next
  case (2 l)
  then show ?case by (simp add: frame_lines_def proper_line_def split_lines_line)
next
  case (3 l v va)
  then show ?case
    by (simp add: frame_lines_def proper_line_def split_lines_cons_line)
qed

lemma no_blank_line: "10 \<notin> set l \<Longrightarrow> indexOf [10, 10] (l @ [10]) = None"
  by (induction l) auto

lemma no_blank_line_cons:
  "10 \<notin> set l \<Longrightarrow> t \<noteq> [] \<Longrightarrow> hd t \<noteq> 10 \<Longrightarrow> indexOf [10, 10] t = None
   \<Longrightarrow> indexOf [10, 10] (l @ 10 # t) = None"
proof (induction l)
  case Nil
  then show ?case by (cases t) auto
next
  case (Cons c l)
  then show ?case by (cases l) auto
qed

lemma join_lines_hd: "frame_lines ls \<Longrightarrow> join_lines ls \<noteq> [] \<and> hd (join_lines ls) \<noteq> 10"
  by (induction ls rule: join_lines.induct)
     (auto simp: frame_lines_def proper_line_def hd_append dest: hd_in_set)

lemma is_frame_join: "frame_lines ls \<Longrightarrow> is_frame (join_lines ls)"
proof (induction ls rule: join_lines.induct)
  case 1
  then show ?case by (simp add: frame_lines_def)
next
  case (2 l)
  then show ?case by (simp add: frame_lines_def proper_line_def is_frame_def no_blank_line)
next
  case (3 l v va)
  then have l: "10 \<notin> set l" and rest: "frame_lines (v # va)"
    by (simp_all add: frame_lines_def proper_line_def)
  from "3.IH" [OF rest] have ix: "indexOf [10, 10] (join_lines (v # va) @ [10]) = None"
    by (simp add: is_frame_def)
  from join_lines_hd [OF rest]
  have ne: "join_lines (v # va) @ [10] \<noteq> []" and h: "hd (join_lines (v # va) @ [10]) \<noteq> 10"
    by (simp_all add: hd_append)
  from no_blank_line_cons [OF l ne h ix] show ?case
    by (simp add: is_frame_def)
qed

lemma process_lines_delivers:
  "list_all (\<lambda>l. \<not> done_line l) ls \<Longrightarrow>
   process_lines parse oc od ls s
     = Continue (deliver oc (List.map_filter (line_payload parse) ls) s)"
proof (induction ls arbitrary: s)
  case Nil
  then show ?case by (simp add: deliver_def List.map_filter_def)
next
  case (Cons l ls)
  then have l: "\<not> done_line l" and ls: "list_all (\<lambda>l. \<not> done_line l) ls"
    by simp_all
  show ?case
    using l Cons.IH [OF ls]
    by (auto simp: Let_def done_line_def data_line_def line_payload_def deliver_def
          List.map_filter_def split: option.splits)
qed

lemma deliver_append: "deliver oc (xs @ ys) s = deliver oc ys (deliver oc xs s)"
  by (simp add: deliver_def)

lemma map_filter_append:
  "List.map_filter f (xs @ ys) = List.map_filter f xs @ List.map_filter f ys"
  by (simp add: List.map_filter_def)

lemma frames_loop_delivers:
  assumes "list_all frame_lines fs" and "list_all (\<lambda>l. \<not> done_line l) (concat fs)"
  shows "frames_loop parse oc od (stream_text (map join_lines fs) @ ending) s
       = frames_loop parse oc od ending (deliver oc (delivered parse fs) s)"
  using assms
proof (induction fs arbitrary: s)
  case Nil
  then show ?case by (simp add: stream_text_def delivered_def deliver_def List.map_filter_def)
next
  case (Cons f fs)
  then have f: "frame_lines f" and fs: "list_all frame_lines fs"
    and nf: "list_all (\<lambda>l. \<not> done_line l) f"
    and nfs: "list_all (\<lambda>l. \<not> done_line l) (concat fs)"
    by simp_all
  have "frames_loop parse oc od (stream_text (map join_lines (f # fs)) @ ending) s
      = frames_loop parse oc od (join_lines f @ [10, 10] @ (stream_text (map join_lines fs) @ ending)) s"
    by (simp add: stream_text_def)
  also have "\<dots> = frames_loop parse oc od (stream_text (map join_lines fs) @ ending)
       (deliver oc (List.map_filter (line_payload parse) f) s)"
    by (simp only: frames_loop_frame [OF is_frame_join [OF f]] split_lines_join [OF f]
          process_lines_delivers [OF nf] flow.case)
  also have "\<dots> = frames_loop parse oc od ending
       (deliver oc (delivered parse fs) (deliver oc (List.map_filter (line_payload parse) f) s))"
    by (rule Cons.IH [OF fs nfs])
  finally show ?case
    by (simp add: delivered_def map_filter_append deliver_append)
qed

lemma delivered_skips_bad:
  "bad_lines parse bad \<Longrightarrow>
   delivered parse (before @ [bad] @ after) = delivered parse before @ delivered parse after"
proof -
  assume "bad_lines parse bad"
  then have "list_all (\<lambda>l. line_payload parse l = None) bad"
    by (simp add: bad_lines_def list_all_iff)
  then have "List.map_filter (line_payload parse) bad = []"
    by (induction bad) (simp_all add: List.map_filter_def)
  then show ?thesis
    by (simp add: delivered_def map_filter_append)
qed

lemma done_frame:
  "frames_loop parse oc od (js ''data: [DONE]'' @ [10, 10] @ rest) s = Return (od None s)"
proof -
  have fr: "is_frame (js ''data: [DONE]'')"
    by (simp add: is_frame_def js_def)
  have "process_lines parse oc od (split_lines (js ''data: [DONE]'')) s = Return (od None s)"
    by (simp add: js_def trim_def is_space_def Let_def)
  then show ?thesis
    by (simp only: frames_loop_frame [OF fr] flow.case)
qed

lemma readSSE_chunks:
  assumes "never_throws od"
  shows "readSSE P (event_stream (map Value cs)) oc od s =
     (case frames_loop (JSON_parse P) oc od
             (snd (decode (decoder_step P) (decoder_init P) (concat cs))) s of
        Return out \<Rightarrow> out
      | Continue bs \<Rightarrow> od None (snd bs))"
proof -
  have "readSSE P (event_stream (map Value cs)) oc od s
      = pump P oc od (decoder_init P) [] (map Value cs @ []) s"
    by (simp add: readSSE_def is_event_stream)
  also have "\<dots> = pump P oc od (decoder_init P) [] (Value (concat cs) # []) s"
    by (rule pump_chunks [OF assms]) simp
  also have "\<dots> = (case frames_loop (JSON_parse P) oc od
             (snd (decode (decoder_step P) (decoder_init P) (concat cs))) s of
        Return out \<Rightarrow> out
      | Continue bs \<Rightarrow> od None (snd bs))"
  proof -
    obtain d1 t where dec: "decode (decoder_step P) (decoder_init P) (concat cs) = (d1, t)"
      by (cases "decode (decoder_step P) (decoder_init P) (concat cs)")
    have last: "pump P oc od d b [] s1 = od None s1" for d b s1
    proof -
      from assms obtain s2 where "od None s1 = Normal s2"
        unfolding never_throws_def by blast
      then show ?thesis by simp
    qed
    show ?thesis
      by (simp only: pump_Value [OF assms] dec prod.case append_Nil snd_conv last)
  qed
  finally show ?thesis .
qed

text \<open>
  Claim C5. Take an event stream whose frames are \<open>before\<close>, then a malformed frame,
  then \<open>after\<close>, and which then ends, with or without a \<open>[DONE]\<close> frame; its bytes
  may come in any chunks. \<open>readSSE\<close> drops the malformed frame and goes on: the chunk
  callback is called on the payload of each valid data line of \<open>before\<close> and then of
  \<open>after\<close>, in the order of the stream, each parsed; then the completion callback is
  called, once and without an error.
\<close>

theorem malformed_frame_is_skipped:
  assumes "\<forall>e s. \<exists>s1. onDone e s = Normal s1"
    and "list_all frame_lines (before @ after)"
    and "list_all (\<lambda>l. \<not> done_line l) (concat (before @ after))"
    and "bad_lines (JSON_parse P) bad"
    and "snd (decode (decoder_step P) (decoder_init P) (concat cs))
           = stream_text (map join_lines (before @ [bad] @ after)) @ ending"
    and "indexOf [10, 10] ending = None \<or> (\<exists>rest. ending = js ''data: [DONE]'' @ [10, 10] @ rest)"
  shows "readSSE P (event_stream (map Value cs)) onChunk onDone s
       = onDone None (deliver onChunk
           (delivered (JSON_parse P) before @ delivered (JSON_parse P) after) s)"
proof -
  let ?fs = "before @ [bad] @ after"
  let ?s1 = "deliver onChunk (delivered (JSON_parse P) before @ delivered (JSON_parse P) after) s"
  from assms(1) have nt: "never_throws onDone"
    by (simp add: never_throws_def)
  from assms(4) have bad: "frame_lines bad" "list_all (\<lambda>l. \<not> done_line l) bad"
    by (simp_all add: bad_lines_def list_all_iff)
  from assms(2) bad(1) have frames: "list_all frame_lines ?fs"
    by simp
  from assms(3) bad(2) have no_done: "list_all (\<lambda>l. \<not> done_line l) (concat ?fs)"
    by simp
  have loop: "frames_loop (JSON_parse P) onChunk onDone
        (snd (decode (decoder_step P) (decoder_init P) (concat cs))) s
      = frames_loop (JSON_parse P) onChunk onDone ending ?s1"
    by (simp only: assms(5) frames_loop_delivers [OF frames no_done]
          delivered_skips_bad [OF assms(4)])
  from assms(6) have "(case frames_loop (JSON_parse P) onChunk onDone ending ?s1 of
        Return out \<Rightarrow> out | Continue bs \<Rightarrow> onDone None (snd bs)) = onDone None ?s1"
  proof
    assume "indexOf [10, 10] ending = None"
    then show ?thesis
      by (simp add: frames_loop_None)
  next
    assume "\<exists>rest. ending = js ''data: [DONE]'' @ [10, 10] @ rest"
    then obtain rest where "ending = js ''data: [DONE]'' @ [10, 10] @ rest"
      by blast
    then show ?thesis
      by (simp only: done_frame flow.case)
  qed
  then show ?thesis
    by (simp only: readSSE_chunks [OF nt] loop)
qed

theorem malformed_frame_is_skipped_witness:
  "(\<forall>e s. \<exists>s1. record_done e (s :: payload chunk list) = Normal s1)
   \<and> list_all frame_lines ([[hel_frame]] @ [event_frame])
   \<and> list_all (\<lambda>l. \<not> done_line l) (concat ([[hel_frame]] @ [event_frame]))
   \<and> bad_lines (JSON_parse example_platform) [bad_frame]
   \<and> snd (decode (decoder_step example_platform) (decoder_init example_platform)
        (concat skipping_chunks))
      = stream_text (map join_lines ([[hel_frame]] @ [[bad_frame]] @ [event_frame]))
          @ (js ''data: [DONE]'' @ [10, 10] @ [])
   \<and> readSSE example_platform (event_stream (map Value skipping_chunks))
       record_chunk record_done []
      = Normal [Frame (delta_text (js ''Hel'')), Frame (delta_text (js ''lo''))]"
proof -
  have total: "\<forall>e s. \<exists>s1. record_done e (s :: payload chunk list) = Normal s1"
    by (simp add: record_done_def)
  have frames: "list_all frame_lines ([[hel_frame]] @ [event_frame])"
    by (simp add: frame_lines_def proper_line_def event_frame_def hel_frame_def lo_frame_def
          json_text_def js_def)
  have no_done: "list_all (\<lambda>l. \<not> done_line l) (concat ([[hel_frame]] @ [event_frame]))"
    by (simp add: done_line_def data_line_def event_frame_def hel_frame_def lo_frame_def
          json_text_def js_def trim_def is_space_def)
  have bad: "bad_lines (JSON_parse example_platform) [bad_frame]"
    by (simp add: bad_lines_def frame_lines_def proper_line_def done_line_def data_line_def
          line_payload_def bad_frame_def example_platform_def example_parse_def json_text_def
          js_def trim_def is_space_def)
  have "concat skipping_chunks
      = ascii_bytes (stream_text (map join_lines ([[hel_frame]] @ [[bad_frame]]
          @ [event_frame])) @ (js ''data: [DONE]'' @ [10, 10] @ []))"
    by (simp add: skipping_chunks_def ascii_bytes_def stream_text_def event_frame_def js_def)
  then have dec: "snd (decode (decoder_step example_platform) (decoder_init example_platform)
        (concat skipping_chunks))
      = stream_text (map join_lines ([[hel_frame]] @ [[bad_frame]] @ [event_frame]))
          @ (js ''data: [DONE]'' @ [10, 10] @ [])"
    by (simp add: example_platform_def ascii_decode stream_text_def event_frame_def
          hel_frame_def lo_frame_def bad_frame_def json_text_def js_def)
  have ending: "indexOf [10, 10] (js ''data: [DONE]'' @ [10, 10] @ []) = None
      \<or> (\<exists>rest. js ''data: [DONE]'' @ [10, 10] @ [] = js ''data: [DONE]'' @ [10, 10] @ rest)"
    by blast
  note skipped = malformed_frame_is_skipped [OF total frames no_done bad dec ending,
      where onChunk = record_chunk and s = "[]"]
  have "record_done None (deliver record_chunk
        (delivered (JSON_parse example_platform) [[hel_frame]]
           @ delivered (JSON_parse example_platform) [event_frame]) [])
      = Normal [Frame (delta_text (js ''Hel'')), Frame (delta_text (js ''lo''))]"
    by (simp add: record_done_def record_chunk_def deliver_def delivered_def line_payload_def
          data_line_def List.map_filter_def event_frame_def hel_frame_def lo_frame_def
          example_platform_def example_parse_def json_text_def js_def trim_def is_space_def)
  with skipped have "readSSE example_platform (event_stream (map Value skipping_chunks))
       record_chunk record_done []
      = Normal [Frame (delta_text (js ''Hel'')), Frame (delta_text (js ''lo''))]"
    by simp
  with total frames no_done bad dec show ?thesis
    by blast
qed

section \<open>What the handlers do to the store and the log\<close>

lemma process_lines_inv:
  assumes oc: "\<And>c s. I s \<Longrightarrow> I (state_of (oc c s))"
  shows "I s \<Longrightarrow>
     (case process_lines parse oc od ls s of
        Continue s1 \<Rightarrow> I s1
      | Return out \<Rightarrow> \<exists>s0. I s0 \<and> out = od None s0)"
proof (induction ls arbitrary: s)
  case Nil
  then show ?case by simp
next
  case (Cons l ls)
  from Cons.prems oc have step: "\<And>obj. I (state_of (oc (Frame obj) s))"
    by blast
  show ?case
    using Cons.IH [OF Cons.prems] Cons.IH [OF step] Cons.prems
    by (auto simp: Let_def split: option.splits)
qed

lemma frames_loop_inv:
  assumes oc: "\<And>c s. I s \<Longrightarrow> I (state_of (oc c s))"
  shows "I s \<Longrightarrow>
     (case frames_loop parse oc od buffer s of
        Continue bs \<Rightarrow> I (snd bs)
      | Return out \<Rightarrow> \<exists>s0. I s0 \<and> out = od None s0)"
proof (induction buffer arbitrary: s rule: length_induct)
  case (1 buffer)
  show ?case
  proof (cases "indexOf [10, 10] buffer")
    case None
    with "1.prems" show ?thesis by (simp add: frames_loop_None)
  next
    case (Some idx)
    from indexOf_bound [OF Some] have shorter: "length (drop (idx + 2) buffer) < length buffer"
      by simp
    from process_lines_inv [where I = I and oc = oc and s = s and parse = parse and od = od
        and ls = "split_lines (take idx buffer)"] oc "1.prems"
    have pl: "case process_lines parse oc od (split_lines (take idx buffer)) s of
        Continue s1 \<Rightarrow> I s1
      | Return out \<Rightarrow> \<exists>s0. I s0 \<and> out = od None s0"
      by blast
    show ?thesis
    proof (cases "process_lines parse oc od (split_lines (take idx buffer)) s")
      case (Continue s1)
      with pl have "I s1" by simp
      with "1.IH" shorter Continue show ?thesis
        by (simp add: frames_loop_Some [OF Some])
    next
      case (Return out)
      with pl show ?thesis
        by (simp add: frames_loop_Some [OF Some])
    qed
  qed
qed

lemma pump_inv:
  assumes oc: "\<And>c s. I s \<Longrightarrow> I (state_of (oc c s))"
    and od: "\<And>e s. I s \<Longrightarrow> \<exists>s1. od e s = Normal s1 \<and> F s1"
  shows "I s \<Longrightarrow> \<exists>s1. pump P oc od d buffer rs s = Normal s1 \<and> F s1"
proof (induction rs arbitrary: d buffer s)
  case Nil
  from od [OF Nil, of None] show ?case by auto
next
  case (Cons r rs)
  show ?case
  proof (cases r)
    case (ReadFail e)
    with od [OF Cons.prems, of "Some e"] show ?thesis by simp
  next
    case (Value bytes)
    obtain d1 t where dec: "decode (decoder_step P) d bytes = (d1, t)"
      by (cases "decode (decoder_step P) d bytes")
    from frames_loop_inv [where I = I and oc = oc and s = s and parse = "JSON_parse P"
        and od = od and buffer = "buffer @ t"] oc Cons.prems
    have fl: "case frames_loop (JSON_parse P) oc od (buffer @ t) s of
        Continue bs \<Rightarrow> I (snd bs)
      | Return out \<Rightarrow> \<exists>s0. I s0 \<and> out = od None s0"
      by blast
    show ?thesis
    proof (cases "frames_loop (JSON_parse P) oc od (buffer @ t) s")
      case (Return out)
      with fl obtain s0 where "I s0" "out = od None s0" by auto
      with od [of s0 None] obtain s1 where "out = Normal s1" "F s1" by auto
      with Value dec Return show ?thesis by simp
    next
      case (Continue bs)
      obtain b1 s1 where bs: "bs = (b1, s1)" by (cases bs)
      with fl Continue have "I s1" by simp
      from Cons.IH [OF this, of d1 b1] obtain s2
        where "pump P oc od d1 b1 rs s1 = Normal s2" "F s2"
        by blast
      with Value dec Continue bs show ?thesis by simp
    qed
  qed
qed

lemma readSSE_inv:
  assumes oc: "\<And>c s. I s \<Longrightarrow> I (state_of (oc c s))"
    and od: "\<And>e s. I s \<Longrightarrow> \<exists>s1. od e s = Normal s1 \<and> F s1"
    and Is: "I s"
  shows "(\<exists>s1. readSSE P r oc od s = Normal s1 \<and> F s1)
       \<or> (\<exists>e s1. readSSE P r oc od s = Threw e s1 \<and> I s1)"
proof (cases "r_ok r \<and> indexOf (js ''text/event-stream'') (r_contentType r) \<noteq> None")
  case True
  with pump_inv [where I = I and oc = oc and od = od and F = F and s = s and P = P
      and d = "decoder_init P" and buffer = "[]" and rs = "r_body r"] oc od Is
  show ?thesis
    by (auto simp: readSSE_def)
next
  case False
  show ?thesis
  proof (cases "r_ok r")
    case False
    with Is show ?thesis
      by (auto simp: readSSE_def split: sum.splits)
  next
    case True
    with False have fb: "indexOf (js ''text/event-stream'') (r_contentType r) = None"
      by simp
    show ?thesis
    proof (cases "parseJsonOrThrow P r")
      case (Inl e)
      with True fb Is show ?thesis by (auto simp: readSSE_def)
    next
      case (Inr json)
      show ?thesis
      proof (cases "oc (FallbackJson json) s")
        case (Normal s1)
        with oc [OF Is, of "FallbackJson json"] have "I s1" by simp
        from od [OF this, of None] Normal Inr True fb show ?thesis
          by (auto simp: readSSE_def)
      next
        case (Threw e s1)
        with oc [OF Is, of "FallbackJson json"] have "I s1" by simp
        with Threw Inr True fb show ?thesis
          by (auto simp: readSSE_def)
      qed
    qed
  qed
qed


lemma keeps_store_refl [simp]: "keeps_store w w"
  by (simp add: keeps_store_def)

lemma keeps_store_chat [simp]:
  "keeps_store w0 (snd (addMessageToChat r c imgs w)) = keeps_store w0 w"
  "keeps_store w0 (updateLastAssistantMessage c imgs w) = keeps_store w0 w"
  "keeps_store w0 (hideTypingIndicator w) = keeps_store w0 w"
  "keeps_store w0 (showTypingIndicator w) = keeps_store w0 w"
  "keeps_store w0 (setStreamingState b w) = keeps_store w0 w"
  by (simp_all add: keeps_store_def addMessageToChat_def updateLastAssistantMessage_def
        hideTypingIndicator_def showTypingIndicator_def setStreamingState_def Let_def)

lemma keeps_store_create_div_once [simp]:
  "keeps_store w0 (snd (create_div_once s)) = keeps_store w0 (snd s)"
proof (cases s)
  case (Pair v w)
  have "keeps_store w0 (snd (addMessageToChat Assistant [] [] w)) = keeps_store w0 w"
    by simp
  then show ?thesis
    using Pair by (simp add: create_div_once_def split_beta split: option.splits)
qed

lemma keeps_store_append_text [simp]:
  "keeps_store w0 (snd (append_text t s)) = keeps_store w0 (snd s)"
proof (cases s)
  case (Pair v w)
  have "keeps_store w0 (snd (create_div_once (v\<lparr>assistantContent := assistantContent v @ t\<rparr>, w)))
      = keeps_store w0 w"
    by simp
  then show ?thesis
    using Pair by (simp add: append_text_def split_beta)
qed

lemma keeps_store_push_image [simp]:
  "keeps_store w0 (snd (push_image url s)) = keeps_store w0 (snd s)"
  by (cases s) (simp add: push_image_def)

lemma keeps_store_content_parts [simp]:
  "keeps_store w0 (snd (content_parts ps s)) = keeps_store w0 (snd s)"
  by (induction ps arbitrary: s) (simp_all add: Let_def split: option.splits)

lemma keeps_store_delta_content_parts [simp]:
  "keeps_store w0 (snd (delta_content_parts delta s)) = keeps_store w0 (snd s)"
  by (simp add: delta_content_parts_def split: option.splits content.splits)

lemma keeps_store_delta_images [simp]:
  "keeps_store w0 (snd (delta_images is s)) = keeps_store w0 (snd s)"
  by (induction "is" arbitrary: s) (simp_all split: option.splits)

lemma keeps_store_text_frame [simp]:
  "keeps_store w0 (snd (text_frame p s)) = keeps_store w0 (snd s)"
  by (simp add: text_frame_def Let_def split: option.splits content.splits)

lemma keeps_store_text_fallback [simp]:
  "keeps_store w0 (snd (text_fallback json s)) = keeps_store w0 (snd s)"
  by (cases s) (simp add: text_fallback_def Let_def)

lemma keeps_store_text_onChunk:
  "keeps_store w0 (snd s) \<Longrightarrow> keeps_store w0 (snd (state_of (text_onChunk c s)))"
  by (simp add: text_onChunk_def split: chunk.splits payload.splits)

lemma keeps_store_image_choices:
  "keeps_store w0 (snd s) \<Longrightarrow> keeps_store w0 (snd (state_of (image_choices cs s)))"
proof (induction cs arbitrary: s)
  case Nil
  then show ?case by simp
next
  case (Cons c cs)
  show ?case
  proof (cases c)
    case None
    with Cons.prems show ?thesis by simp
  next
    case (Some ch)
    with Cons show ?thesis
      by (simp add: Let_def split: option.splits)
  qed
qed

lemma keeps_store_image_onChunk:
  "keeps_store w0 (snd s) \<Longrightarrow> keeps_store w0 (snd (state_of (image_onChunk c s)))"
  by (auto simp: image_onChunk_def keeps_store_image_choices split: chunk.splits sum.splits)

lemma one_version_added_addResponseToHistory:
  "keeps_store w0 w \<Longrightarrow> one_version_added w0 (addResponseToHistory c imgs w)"
  by (simp add: keeps_store_def one_version_added_def addResponseToHistory_def Let_def)

lemma keeps_store_history:
  "keeps_store w0 (w\<lparr>messageHistory := h\<rparr>) = keeps_store w0 w"
  by (simp add: keeps_store_def)

lemma text_onDone_adds:
  assumes "keeps_store w0 (snd s)"
  shows "\<exists>s1. text_onDone e s = Normal s1 \<and> one_version_added w0 (snd s1)"
proof (cases s)
  case (Pair v w)
  with assms have "keeps_store w0 w" by simp
  then show ?thesis
    using Pair
    by (simp add: text_onDone_def Let_def one_version_added_addResponseToHistory
          keeps_store_history)
qed

lemma image_onDone_adds:
  assumes "keeps_store w0 (snd s)"
  shows "\<exists>s1. image_onDone e s = Normal s1 \<and> one_version_added w0 (snd s1)"
proof (cases s)
  case (Pair v w)
  with assms have "keeps_store w0 w" by simp
  then show ?thesis
    using Pair
    by (simp add: image_onDone_def Let_def one_version_added_addResponseToHistory)
qed

lemma readSSE_text:
  "(\<exists>s1. readSSE P r text_onChunk text_onDone (fresh_vars, w) = Normal s1
          \<and> one_version_added w (snd s1))
   \<or> (\<exists>e s1. readSSE P r text_onChunk text_onDone (fresh_vars, w) = Threw e s1
          \<and> keeps_store w (snd s1))"
proof (rule readSSE_inv [where I = "\<lambda>s. keeps_store w (snd s)"])
  show "keeps_store w (snd (state_of (text_onChunk c s)))" if "keeps_store w (snd s)" for c s
    using that by (rule keeps_store_text_onChunk)
  show "\<exists>s1. text_onDone e s = Normal s1 \<and> one_version_added w (snd s1)"
    if "keeps_store w (snd s)" for e s
    using that by (rule text_onDone_adds)
  show "keeps_store w (snd (fresh_vars, w))"
    by simp
qed

lemma readSSE_image:
  "(\<exists>s1. readSSE P r image_onChunk image_onDone (fresh_vars, w) = Normal s1
          \<and> one_version_added w (snd s1))
   \<or> (\<exists>e s1. readSSE P r image_onChunk image_onDone (fresh_vars, w) = Threw e s1
          \<and> keeps_store w (snd s1))"
proof (rule readSSE_inv [where I = "\<lambda>s. keeps_store w (snd s)"])
  show "keeps_store w (snd (state_of (image_onChunk c s)))" if "keeps_store w (snd s)" for c s
    using that by (rule keeps_store_image_onChunk)
  show "\<exists>s1. image_onDone e s = Normal s1 \<and> one_version_added w (snd s1)"
    if "keeps_store w (snd s)" for e s
    using that by (rule image_onDone_adds)
  show "keeps_store w (snd (fresh_vars, w))"
    by simp
qed

lemma handled_receive: "handled w (handleStreamingResponse_receive P n w)"
proof (cases n)
  case (FetchRejected e)
  then show ?thesis
    by (simp add: handled_def handleStreamingResponse_receive_def)
next
  case (Responded r)
  with readSSE_text [of P r w] show ?thesis
    by (auto simp: handled_def handleStreamingResponse_receive_def drop_vars_def)
qed


lemma handled_nonstreaming_receive:
  "handled w (handleNonStreamingResponse_receive P n w)"
  by (simp add: handled_def handleNonStreamingResponse_receive_def Let_def
        one_version_added_addResponseToHistory
        split: net.splits sum.splits payload.splits)

lemma handled_nonstreaming_image_receive:
  "handled w (handleNonStreamingImageResponse_receive P n w)"
  by (simp add: handled_def handleNonStreamingImageResponse_receive_def Let_def
        one_version_added_addResponseToHistory
        split: net.splits sum.splits payload.splits)

lemma handled_image_receive: "handled w (handleStreamingImageResponse_receive P n w)"
proof (cases n)
  case (FetchRejected e)
  then show ?thesis
    by (simp add: handled_def handleStreamingImageResponse_receive_def)
next
  case (Responded r)
  with readSSE_image [of P r w] show ?thesis
    by (auto simp: handled_def handleStreamingImageResponse_receive_def drop_vars_def)
qed

lemma handled_nonstreaming:
  "handled (sendChatCompletion False w) (handleNonStreamingResponse P n w)"
  by (simp add: handleNonStreamingResponse_def handled_nonstreaming_receive)

lemma handled_nonstreaming_image:
  "handled (sendChatCompletion False w) (handleNonStreamingImageResponse P n w)"
  by (simp add: handleNonStreamingImageResponse_def handled_nonstreaming_image_receive)

lemma handled_streaming:
  "handled (handleStreamingResponse_send w) (handleStreamingResponse P n w)"
  by (simp add: handleStreamingResponse_def handled_receive)

lemma handled_streaming_image:
  "handled (sendChatCompletion True (beginStream w)) (handleStreamingImageResponse P n w)"
  by (simp add: handleStreamingImageResponse_def handled_image_receive)

lemma same_regen_steps [simp]:
  "same_regen w (sendChatCompletion b w)"
  "same_regen w (beginStream w)"
  "same_regen w (setStreamingState b w)"
  "same_regen w (hideTypingIndicator w)"
  "same_regen w (showTypingIndicator w)"
  "same_regen w (cleanupStreamState w)"
  by (simp_all add: same_regen_def sendChatCompletion_def beginStream_def abortActive_def
        setStreamingState_def hideTypingIndicator_def showTypingIndicator_def
        cleanupStreamState_def Let_def split: option.splits)

lemma same_regen_trans: "same_regen a b \<Longrightarrow> same_regen b c \<Longrightarrow> same_regen a c"
  by (simp add: same_regen_def)

lemma appended_after: "same_regen a b \<Longrightarrow> appended b c \<Longrightarrow> appended a c"
  by (simp add: same_regen_def appended_def)

lemma appended_then: "appended a b \<Longrightarrow> same_regen b c \<Longrightarrow> appended a c"
  by (simp add: same_regen_def appended_def)

lemma handled_appended:
  assumes "handled w0 out" and "same_regen w w0"
  shows "appended w (case out of Normal w1 \<Rightarrow> w1 | Threw e w1 \<Rightarrow> handleError e w1)"
proof (cases out)
  case (Normal w1)
  with assms show ?thesis
    by (simp add: handled_def one_version_added_def appended_def same_regen_def)
next
  case (Threw e w1)
  with assms show ?thesis
    by (simp add: handled_def keeps_store_def appended_def same_regen_def handleError_def
          addResponseToHistory_def addMessageToChat_def hideTypingIndicator_def
          cleanupStreamState_def Let_def)
qed

lemma handled_finally:
  "handled w0 out \<Longrightarrow>
   handled w0 (finally_do out (\<lambda>w1. hideTypingIndicator (setStreamingState False w1)))"
  by (cases out)
     (simp_all add: handled_def one_version_added_def keeps_store_def hideTypingIndicator_def
        setStreamingState_def)

lemma showPrevious_step:
  "0 < currentResponseIndex a \<Longrightarrow>
   currentResponseIndex (showPreviousResponse a) = currentResponseIndex a - 1
   \<and> regenerationHistory (showPreviousResponse a) = regenerationHistory a"
  by (simp add: showPreviousResponse_def)

lemma showPrevious_repeated:
  assumes "cursor_ok w" and "k \<le> nat (currentResponseIndex w)"
  shows "currentResponseIndex ((showPreviousResponse ^^ k) w) = currentResponseIndex w - int k
       \<and> regenerationHistory ((showPreviousResponse ^^ k) w) = regenerationHistory w"
  using assms(2)
proof (induction k)
  case 0
  then show ?case by simp
next
  case (Suc k)
  then have IH: "currentResponseIndex ((showPreviousResponse ^^ k) w)
        = currentResponseIndex w - int k"
      "regenerationHistory ((showPreviousResponse ^^ k) w) = regenerationHistory w"
    by simp_all
  from Suc.prems have "0 < currentResponseIndex w - int k"
    by linarith
  with IH have "0 < currentResponseIndex ((showPreviousResponse ^^ k) w)"
    by simp
  from showPrevious_step [OF this] IH show ?case
    by simp
qed

section \<open>The choices of a frame\<close>

lemma map_filter_Cons:
  "List.map_filter f (x # xs) =
     (case f x of None \<Rightarrow> List.map_filter f xs | Some y \<Rightarrow> y # List.map_filter f xs)"
  by (simp add: List.map_filter_def split: option.splits)

lemma map_filter_Nil: "List.map_filter f [] = []"
  by (simp add: List.map_filter_def)

lemma vars_create_div_once [simp]:
  "assistantContent (fst (create_div_once s)) = assistantContent (fst s)"
  "assistantImages (fst (create_div_once s)) = assistantImages (fst s)"
  by (cases s; simp add: create_div_once_def split_beta split: option.splits)+

lemma vars_append_text [simp]:
  "assistantContent (fst (append_text t s)) = assistantContent (fst s) @ t"
  "assistantImages (fst (append_text t s)) = assistantImages (fst s)"
  by (cases s; simp add: append_text_def split_beta)+

lemma vars_push_image [simp]:
  "assistantContent (fst (push_image url s)) = assistantContent (fst s)"
  "assistantImages (fst (push_image url s)) = assistantImages (fst s) @ [ImageUrl url]"
  by (cases s; simp add: push_image_def)+

lemma vars_content_parts:
  "assistantContent (fst (content_parts ps s))
     = assistantContent (fst s) @ concat (List.map_filter output_text ps)
   \<and> assistantImages (fst (content_parts ps s))
     = assistantImages (fst s) @ map ImageUrl (List.map_filter output_image ps)"
  by (induction ps arbitrary: s)
     (simp_all add: map_filter_Nil map_filter_Cons Let_def split: option.splits)

lemma vars_delta_images:
  "assistantContent (fst (delta_images is s)) = assistantContent (fst s)
   \<and> assistantImages (fst (delta_images is s))
     = assistantImages (fst s) @ map ImageUrl (List.map_filter image_url_item is)"
  by (induction "is" arbitrary: s)
     (simp_all add: map_filter_Nil map_filter_Cons split: option.splits)

lemma vars_image_choices:
  "None \<notin> set cs \<Longrightarrow>
   \<exists>s1. image_choices cs s = Normal s1
     \<and> assistantContent (fst s1) = assistantContent (fst s) @ concat (map choice_part_text cs)
     \<and> assistantImages (fst s1) = assistantImages (fst s) @ concat (map choice_images cs)"
proof (induction cs arbitrary: s)
  case Nil
  then show ?case by simp
next
  case (Cons c cs)
  then obtain ch where c: "c = Some ch" by (cases c) auto
  let ?s1 = "case c_delta ch of None \<Rightarrow> s
     | Some d \<Rightarrow> (case d_images d of Some is \<Rightarrow> delta_images is s | None \<Rightarrow> s)"
  let ?s2 = "delta_content_parts (c_delta ch) ?s1"
  have step: "assistantContent (fst ?s2) = assistantContent (fst s) @ choice_part_text c
      \<and> assistantImages (fst ?s2) = assistantImages (fst s) @ choice_images c"
  proof (cases "c_delta ch")
    case None
    then show ?thesis
      by (simp add: c choice_part_text_def choice_images_def delta_content_parts_def)
  next
    case (Some d)
    show ?thesis
      by (cases "d_images d"; cases "d_content d")
         (simp_all add: c Some choice_part_text_def choice_images_def delta_content_parts_def
            vars_content_parts vars_delta_images)
  qed
  from Cons.prems have "None \<notin> set cs" by simp
  from Cons.IH [OF this, of ?s2] step show ?case
    by (auto simp: c Let_def)
qed

lemma text_frame_first_choice:
  "text_frame (JsonObject (Some (c # cs))) s = text_frame (JsonObject (Some [c])) s"
  by (simp add: text_frame_def)

lemma vars_text_frame:
  "assistantContent (fst (text_frame (JsonObject (Some (c # cs))) s))
     = assistantContent (fst s) @ choice_text c"
  by (simp add: text_frame_def choice_text_def delta_content_parts_def vars_content_parts
        Let_def map_filter_Nil split: option.splits content.splits)

text \<open>
  Claim C1, as amended. The text handler reads the choice at index 0 only: the choices
  after it change nothing, and the text it appends is that of the first choice. The image
  handler reads every choice of a payload whose choices are all objects, in the order of
  the array: it appends their \<open>output_text\<close> parts to the text, and the \<open>image_url\<close>
  items of \<open>delta.images\<close> and their \<open>output_image\<close> parts to the images.
\<close>

theorem choices_read_by_each_handler:
  "text_onChunk (Frame (JsonObject (Some (c # cs)))) s
     = text_onChunk (Frame (JsonObject (Some [c]))) s
   \<and> assistantContent (fst (state_of (text_onChunk (Frame (JsonObject (Some (c # cs)))) s)))
     = assistantContent (fst s) @ choice_text c
   \<and> (None \<notin> set ics \<longrightarrow>
        (\<exists>s1. image_onChunk (Frame (JsonObject (Some ics))) s = Normal s1
           \<and> assistantContent (fst s1)
               = assistantContent (fst s) @ concat (map choice_part_text ics)
           \<and> assistantImages (fst s1)
               = assistantImages (fst s) @ concat (map choice_images ics)))"
proof -
  have "text_onChunk (Frame (JsonObject (Some (c # cs)))) s
      = text_onChunk (Frame (JsonObject (Some [c]))) s"
    by (simp add: text_onChunk_def text_frame_first_choice [of c cs s])
  moreover
  have "assistantContent (fst (state_of (text_onChunk (Frame (JsonObject (Some (c # cs)))) s)))
      = assistantContent (fst s) @ choice_text c"
    by (simp add: text_onChunk_def vars_text_frame)
  moreover
  have "\<exists>s1. image_onChunk (Frame (JsonObject (Some ics))) s = Normal s1
           \<and> assistantContent (fst s1)
               = assistantContent (fst s) @ concat (map choice_part_text ics)
           \<and> assistantImages (fst s1)
               = assistantImages (fst s) @ concat (map choice_images ics)"
    if "None \<notin> set ics"
    using vars_image_choices [OF that, of s] by (simp add: image_onChunk_def)
  ultimately show ?thesis
    by blast
qed

theorem choices_read_by_each_handler_witness:
  "None \<notin> set [image_choice (js ''u1''), image_choice (js ''u2'')]
   \<and> (\<exists>s1. image_onChunk (Frame (JsonObject (Some [image_choice (js ''u1''),
                image_choice (js ''u2'')]))) (fresh_vars, one_turn) = Normal s1
         \<and> assistantImages (fst s1) = [ImageUrl (js ''u1''), ImageUrl (js ''u2'')])
   \<and> assistantContent (fst (state_of (text_onChunk
         (Frame (JsonObject (Some [text_choice (js ''A''), text_choice (js ''B'')])))
         (fresh_vars, one_turn)))) = js ''A''"
proof -
  have shape: "None \<notin> set [image_choice (js ''u1''), image_choice (js ''u2'')]"
    by (simp add: image_choice_def)
  have imgs: "concat (map choice_images [image_choice (js ''u1''), image_choice (js ''u2'')])
      = [ImageUrl (js ''u1''), ImageUrl (js ''u2'')]"
    by (simp add: image_choice_def choice_images_def image_url_item_def truthy_url_def
          map_filter_Nil map_filter_Cons js_def)
  have frag: "choice_text (text_choice (js ''A'')) = js ''A''"
    by (simp add: text_choice_def choice_text_def)
  note inst = choices_read_by_each_handler [where c = "text_choice (js ''A'')"
      and cs = "[text_choice (js ''B'')]" and s = "(fresh_vars, one_turn)"
      and ics = "[image_choice (js ''u1''), image_choice (js ''u2'')]"]
  from inst shape obtain s1 where s1: "image_onChunk (Frame (JsonObject (Some
        [image_choice (js ''u1''), image_choice (js ''u2'')]))) (fresh_vars, one_turn) = Normal s1"
    "assistantImages (fst s1) = assistantImages (fst (fresh_vars, one_turn))
       @ concat (map choice_images [image_choice (js ''u1''), image_choice (js ''u2'')])"
    by blast
  from s1(2) imgs have "assistantImages (fst s1) = [ImageUrl (js ''u1''), ImageUrl (js ''u2'')]"
    by (simp add: fresh_vars_def)
  with s1(1) have images: "\<exists>s1. image_onChunk (Frame (JsonObject (Some [image_choice (js ''u1''),
                image_choice (js ''u2'')]))) (fresh_vars, one_turn) = Normal s1
         \<and> assistantImages (fst s1) = [ImageUrl (js ''u1''), ImageUrl (js ''u2'')]"
    by blast
  from inst have "assistantContent (fst (state_of (text_onChunk
         (Frame (JsonObject (Some [text_choice (js ''A''), text_choice (js ''B'')])))
         (fresh_vars, one_turn))))
       = assistantContent (fst (fresh_vars, one_turn)) @ choice_text (text_choice (js ''A''))"
    by blast
  with frag have first: "assistantContent (fst (state_of (text_onChunk
         (Frame (JsonObject (Some [text_choice (js ''A''), text_choice (js ''B'')])))
         (fresh_vars, one_turn)))) = js ''A''"
    by (simp add: fresh_vars_def)
  from shape images first show ?thesis
    by blast
qed

text \<open>
  The claim as stated fails for the text handler: of a frame with the two choices \<open>A\<close>
  and \<open>B\<close> it takes \<open>A\<close> and not \<open>B\<close>.
\<close>

theorem text_handler_skips_second_choice:
  "assistantContent (fst (state_of (text_onChunk
       (Frame (JsonObject (Some [text_choice (js ''A''), text_choice (js ''B'')])))
       (fresh_vars, one_turn)))) = js ''A''
   \<and> concat (map choice_text [text_choice (js ''A''), text_choice (js ''B'')]) = js ''AB''"
  by (simp add: text_onChunk_def vars_text_frame text_choice_def choice_text_def fresh_vars_def
        js_def)

section \<open>Empty responses and the content filter\<close>

lemma readSSE_no_frames:
  "readSSE P (event_stream []) text_onChunk text_onDone s = text_onDone None s"
  by (simp add: readSSE_def is_event_stream text_onDone_def split_beta Let_def)

lemma readSSE_read_fails:
  "readSSE P (event_stream (ReadFail e # rs)) text_onChunk text_onDone s
     = text_onDone (Some e) s"
  by (simp add: readSSE_def is_event_stream)

text \<open>
  Claim C3, at the input where the code departs from it. A stream that ends without a
  frame, so with no text and no image, makes \<open>handleStreamingResponse\<close> store the empty
  string as the new version and show nothing; the sentinel is not put in its place.
\<close>

theorem empty_stream_stores_empty_text:
  "regenerationHistory (state_of (handleStreamingResponse P (Responded (event_stream [])) w))
     = regenerationHistory w @ [\<lparr>v_content = [], v_images = []\<rparr>]
   \<and> chatMessages (state_of (handleStreamingResponse P (Responded (event_stream [])) w))
     = chatMessages w"
  by (simp add: handleStreamingResponse_def handleStreamingResponse_receive_def
        handleStreamingResponse_send_def readSSE_no_frames text_onDone_def drop_vars_def
        fresh_vars_def addResponseToHistory_def sendChatCompletion_def beginStream_def
        abortActive_def Let_def split: option.splits)

text \<open>The handler of a buffered response does put the sentinel in place of an empty text.\<close>

lemma nonstreaming_empty_response:
  assumes "parseJsonOrThrow P r = Inr (JsonObject None)"
  shows "regenerationHistory (state_of (handleNonStreamingResponse P (Responded r) w))
     = regenerationHistory w @ [\<lparr>v_content = js ''[Empty response]'', v_images = []\<rparr>]"
  using assms
  by (simp add: handleNonStreamingResponse_def handleNonStreamingResponse_receive_def Let_def
        extractTextFromMessage_def extractImagesFromMessage_def addResponseToHistory_def
        addMessageToChat_def sendChatCompletion_def js_def)

text \<open>
  Claim C4, at the input where the code departs from it. A frame whose first choice has
  the finish reason \<open>content_filter\<close>, arriving before any text, leaves the state of
  \<open>handleStreamingResponse\<close> as it was: nothing is shown. The script's callback, given
  the same frame, shows the sentinel.
\<close>

theorem content_filter_frame_is_ignored:
  "text_onChunk (Frame blocked_frame) (fresh_vars, w) = Normal (fresh_vars, w)
   \<and> chatMessages (snd (script_text_frame blocked_frame (fresh_vars, w)))
     = chatMessages w @ [\<lparr>e_class = AssistantDiv, e_content = js ''[Blocked by content filter]'',
         e_images = []\<rparr>]"
  by (simp add: text_onChunk_def text_frame_def blocked_frame_def delta_content_parts_def
        script_text_frame_def fresh_vars_def addMessageToChat_def Let_def)

text \<open>The handler of the modules never reads a finish reason.\<close>

lemma finish_reason_is_not_read:
  "text_frame (JsonObject (Some (map (map_option (\<lambda>c. c\<lparr>c_finish_reason := f c\<rparr>)) cs))) s
     = text_frame (JsonObject (Some cs)) s"
proof (cases cs)
  case Nil
  then show ?thesis by (simp add: text_frame_def)
next
  case (Cons c cs1)
  then show ?thesis by (cases c) (simp_all add: text_frame_def)
qed


section \<open>The invariants of the session and of the cursor\<close>

lemma never_throws_callbacks: "never_throws text_onDone" "never_throws image_onDone"
  by (simp_all add: never_throws_def text_onDone_def image_onDone_def split_beta Let_def)

lemma created_before_mono: "created_before n e \<Longrightarrow> created_before (Suc n) e"
  by (cases e) (simp_all add: created_before_def)

lemma session_ok_initial: "session_ok initial_world"
  by (simp add: session_ok_def initial_world_def)

lemma session_ok_abortActive: "session_ok w \<Longrightarrow> session_ok (state_of (abortActive reason b w))"
  by (auto simp: session_ok_def abortActive_def created_before_def Let_def
        split: option.splits)

lemma session_ok_beginStream: "session_ok w \<Longrightarrow> session_ok (beginStream w)"
proof -
  assume ok: "session_ok w"
  let ?w1 = "state_of (abortActive None False w)"
  from session_ok_abortActive [OF ok, of None False]
  have all: "list_all (created_before (controllers ?w1)) (log ?w1)"
    by (simp add: session_ok_def)
  then have "AbortCalled (controllers ?w1) \<notin> set (log ?w1)"
    by (auto simp: list_all_iff created_before_def)
  moreover from all have "list_all (created_before (Suc (controllers ?w1))) (log ?w1)"
    by (auto simp: list_all_iff intro: created_before_mono)
  ultimately show ?thesis
    by (simp add: session_ok_def beginStream_def Let_def)
qed

lemma session_ok_cleanupStreamState: "session_ok w \<Longrightarrow> session_ok (cleanupStreamState w)"
  by (simp add: session_ok_def cleanupStreamState_def)

lemma session_ok_timer_fires: "session_ok w \<Longrightarrow> session_ok (timer_fires w)"
proof (cases "timers w = 0")
  case True
  then show "session_ok w \<Longrightarrow> ?thesis"
    by (simp add: timer_fires_def)
next
  case False
  assume "session_ok w"
  then have "session_ok (w\<lparr>timers := timers w - 1\<rparr>)"
    by (simp add: session_ok_def split: option.splits)
  from session_ok_abortActive [OF this] False show ?thesis
    by (simp add: timer_fires_def)
qed

lemma session_ok_sendChatCompletion: "session_ok w \<Longrightarrow> session_ok (sendChatCompletion b w)"
  by (simp add: session_ok_def sendChatCompletion_def created_before_def split: option.splits)

lemma session_ok_handled:
  assumes "handled w0 out" and "session_ok w0"
  shows "session_ok (state_of out)"
  using assms
  by (cases out)
     (simp_all add: handled_def one_version_added_def keeps_store_def session_ok_def
        split: option.splits)

lemma session_ok_streaming:
  "session_ok w \<Longrightarrow> session_ok (state_of (handleStreamingResponse P n w))"
  "session_ok w \<Longrightarrow> session_ok (state_of (handleStreamingImageResponse P n w))"
  using session_ok_handled [OF handled_streaming [of w P n]]
    session_ok_handled [OF handled_streaming_image [of w P n]]
  by (simp_all add: handleStreamingResponse_send_def session_ok_sendChatCompletion
        session_ok_beginStream)

lemma cursor_ok_appended: "appended w w1 \<Longrightarrow> cursor_ok w1"
  by (auto simp: appended_def cursor_ok_def)

lemma empty_stream_overwrites_user_turn:
  "messageHistory (state_of (handleStreamingResponse P (Responded (event_stream [])) one_turn))
     = [\<lparr>m_role = User, m_content = [], m_images = []\<rparr>]"
  by (simp add: handleStreamingResponse_def handleStreamingResponse_receive_def
        handleStreamingResponse_send_def readSSE_no_frames text_onDone_def drop_vars_def
        fresh_vars_def addResponseToHistory_def sendChatCompletion_def beginStream_def
        abortActive_def one_turn_def addMessageToChat_def storeLastUserMessage_def
        initial_world_def Let_def)

section \<open>The scenario of the two frames\<close>

text \<open>
  The frames \<open>Hel\<close>, \<open>lo\<close> and \<open>[DONE]\<close>, read by \<open>handleStreamingResponse\<close>
  after the user turn \<open>hi\<close>, give the version \<open>Hello\<close> and show it.
\<close>

lemma hello_chunks:
  "readSSE example_platform (event_stream [Value hello_stream]) oc od s
     = (case od None (state_of (oc (Frame (delta_text (js ''lo'')))
             (state_of (oc (Frame (delta_text (js ''Hel''))) s)))) of
          Normal s1 \<Rightarrow> Normal s1 | Threw e s1 \<Rightarrow> od (Some e) s1)"
  by (simp add: example_defs hello_stream_def)

lemma hello_scenario:
  "regenerationHistory (state_of (handleStreamingResponse example_platform hello_net one_turn))
     = [\<lparr>v_content = js ''Hello'', v_images = []\<rparr>]
   \<and> map e_content (chatMessages (state_of
         (handleStreamingResponse example_platform hello_net one_turn)))
     = [js ''hi'', js ''Hello'']"
  by (simp add: handleStreamingResponse_def handleStreamingResponse_receive_def hello_net_def
        hello_chunks text_onChunk_def text_onDone_def text_frame_def delta_text_def
        delta_content_parts_def append_text_def create_div_once_def
        updateLastAssistantMessage_def is_assistant_div_def drop_vars_def fresh_vars_def
        handleStreamingResponse_send_def sendChatCompletion_def beginStream_def
        abortActive_def one_turn_def addMessageToChat_def storeLastUserMessage_def
        addResponseToHistory_def initial_world_def Let_def js_def)

text \<open>
  A controller that is no longer the current one is never aborted again, and never
  becomes the current one again, whatever the session does next.
\<close>

lemma old_controller_abortActive:
  assumes "currentController w \<noteq> Some c" and "c < controllers w"
  shows "count_list (log (state_of (abortActive reason b w))) (AbortCalled c)
           = count_list (log w) (AbortCalled c)
       \<and> currentController (state_of (abortActive reason b w)) \<noteq> Some c
       \<and> c < controllers (state_of (abortActive reason b w))"
  using assms
  by (auto simp: abortActive_def Let_def split: option.splits)

lemma old_controller_beginStream:
  assumes "currentController w \<noteq> Some c" and "c < controllers w"
  shows "count_list (log (beginStream w)) (AbortCalled c) = count_list (log w) (AbortCalled c)
       \<and> currentController (beginStream w) \<noteq> Some c
       \<and> c < controllers (beginStream w)"
  using old_controller_abortActive [OF assms, of None False]
  by (auto simp: beginStream_def Let_def)

lemma old_controller_timer_fires:
  assumes "currentController w \<noteq> Some c" and "c < controllers w"
  shows "count_list (log (timer_fires w)) (AbortCalled c) = count_list (log w) (AbortCalled c)
       \<and> currentController (timer_fires w) \<noteq> Some c
       \<and> c < controllers (timer_fires w)"
  using assms
  by (auto simp: timer_fires_def abortActive_def Let_def split: option.splits)

lemma old_controller_other_steps:
  assumes "currentController w \<noteq> Some c" and "c < controllers w"
  shows "count_list (log (cleanupStreamState w)) (AbortCalled c)
           = count_list (log w) (AbortCalled c)
       \<and> currentController (cleanupStreamState w) \<noteq> Some c
       \<and> c < controllers (cleanupStreamState w)
       \<and> count_list (log (sendChatCompletion s w)) (AbortCalled c)
           = count_list (log w) (AbortCalled c)
       \<and> currentController (sendChatCompletion s w) \<noteq> Some c
       \<and> c < controllers (sendChatCompletion s w)"
  using assms
  by (simp add: cleanupStreamState_def sendChatCompletion_def)

section \<open>Runs in progress, one piece at a time\<close>

text \<open>
  \<open>pump_step\<close> is \<open>pump\<close> taken apart: one read, and then the rest of \<open>pump\<close>.
\<close>

lemma catches_Normal [simp]: "catches k od (Normal s) = Normal s"
  by (induction k) simp_all

lemma pump_unfold:
  "catches k od (pump P oc od d buffer body s) =
     (case pump_step P oc od k d buffer body s of
        Return out \<Rightarrow> out
      | Continue c \<Rightarrow>
          catches (Suc k) od (pump P oc od (fst c) (fst (snd c)) (fst (snd (snd c)))
            (snd (snd (snd c)))))"
proof (cases body)
  case Nil
  then show ?thesis by simp
next
  case (Cons r rs)
  show ?thesis
  proof (cases r)
    case (ReadFail e)
    with Cons show ?thesis by simp
  next
    case (Value bytes)
    with Cons show ?thesis
      by (simp split: prod.splits flow.splits)
  qed
qed

lemma catches_callbacks:
  "catches k text_onDone (text_onDone e s) = text_onDone e s"
  "catches k image_onDone (image_onDone e s) = image_onDone e s"
  by (simp_all add: text_onDone_def image_onDone_def split_beta Let_def)

lemma pump_callbacks:
  "catches k text_onDone (pump P text_onChunk text_onDone d buffer body s)
     = pump P text_onChunk text_onDone d buffer body s"
  "catches k image_onDone (pump P image_onChunk image_onDone d buffer body s)
     = pump P image_onChunk image_onDone d buffer body s"
proof -
  from pump_Normal [OF never_throws_callbacks(1), where P = P and oc = text_onChunk and d = d
      and buffer = buffer and rs = body and s = s]
  show "catches k text_onDone (pump P text_onChunk text_onDone d buffer body s)
     = pump P text_onChunk text_onDone d buffer body s"
    by auto
  from pump_Normal [OF never_throws_callbacks(2), where P = P and oc = image_onChunk and d = d
      and buffer = buffer and rs = body and s = s]
  show "catches k image_onDone (pump P image_onChunk image_onDone d buffer body s)
     = pump P image_onChunk image_onDone d buffer body s"
    by auto
qed


text \<open>
  What one piece of a run does to the store and to the log: it ends the run and appends
  one version, or it appends nothing and the run goes on.
\<close>

lemma pump_step_inv:
  assumes oc: "\<And>c s. I s \<Longrightarrow> I (state_of (oc c s))"
    and od: "\<And>e s. I s \<Longrightarrow> \<exists>s1. od e s = Normal s1 \<and> F s1"
    and Is: "I s"
  shows "case pump_step P oc od k d buffer body s of
           Return out \<Rightarrow> \<exists>s1. out = Normal s1 \<and> F s1
         | Continue c \<Rightarrow> I (snd (snd (snd c)))
             \<and> length (fst (snd (snd c))) < length body"
proof (cases body)
  case Nil
  with od [OF Is, of None] show ?thesis by auto
next
  case (Cons r rs)
  show ?thesis
  proof (cases r)
    case (ReadFail e)
    with Cons od [OF Is, of "Some e"] show ?thesis by auto
  next
    case (Value bytes)
    obtain d1 t where dec: "decode (decoder_step P) d bytes = (d1, t)"
      by (cases "decode (decoder_step P) d bytes")
    from frames_loop_inv [where I = I and oc = oc and s = s and parse = "JSON_parse P"
        and od = od and buffer = "buffer @ t"] oc Is
    have fl: "case frames_loop (JSON_parse P) oc od (buffer @ t) s of
        Continue bs \<Rightarrow> I (snd bs)
      | Return out \<Rightarrow> \<exists>s0. I s0 \<and> out = od None s0"
      by blast
    show ?thesis
    proof (cases "frames_loop (JSON_parse P) oc od (buffer @ t) s")
      case (Return out)
      with fl obtain s0 where "I s0" "out = od None s0" by auto
      with od [of s0 None] obtain s1 where "out = Normal s1" "F s1" by auto
      with Cons Value dec Return show ?thesis by simp
    next
      case (Continue bs)
      obtain b1 s1 where bs: "bs = (b1, s1)" by (cases bs)
      with fl Continue have "I s1" by simp
      with Cons Value dec Continue bs show ?thesis by simp
    qed
  qed
qed

lemma finish_appended: "handled w out \<Longrightarrow> appended w (finish out)"
  unfolding finish_def
  using handled_appended [OF handled_finally, of w out w]
  by (simp add: same_regen_def)

lemma finish_log:
  "handled w out \<Longrightarrow> log (finish out) = log w \<and> controllers (finish out) = controllers w
    \<and> timers (finish out) = timers w"
  by (cases out)
     (simp_all add: finish_def handled_def one_version_added_def keeps_store_def
        hideTypingIndicator_def setStreamingState_def handleError_def addMessageToChat_def
        addResponseToHistory_def cleanupStreamState_def Let_def)

lemma finish_ends_run: "handled w out \<Longrightarrow> ends_run w (finish out)"
  by (simp add: ends_run_def finish_appended finish_log)

lemma pump_step_text:
  "case pump_step P text_onChunk text_onDone k d buffer body (v, w) of
     Return out \<Rightarrow> \<exists>s1. out = Normal s1 \<and> one_version_added w (snd s1)
   | Continue c \<Rightarrow> keeps_store w (snd (snd (snd (snd c))))
       \<and> length (fst (snd (snd c))) < length body"
proof (rule pump_step_inv [where I = "\<lambda>s. keeps_store w (snd s)"])
  show "keeps_store w (snd (state_of (text_onChunk c s)))" if "keeps_store w (snd s)" for c s
    using that by (rule keeps_store_text_onChunk)
  show "\<exists>s1. text_onDone e s = Normal s1 \<and> one_version_added w (snd s1)"
    if "keeps_store w (snd s)" for e s
    using that by (rule text_onDone_adds)
  show "keeps_store w (snd (v, w))"
    by simp
qed

lemma pump_step_image:
  "case pump_step P image_onChunk image_onDone k d buffer body (v, w) of
     Return out \<Rightarrow> \<exists>s1. out = Normal s1 \<and> one_version_added w (snd s1)
   | Continue c \<Rightarrow> keeps_store w (snd (snd (snd (snd c))))
       \<and> length (fst (snd (snd c))) < length body"
proof (rule pump_step_inv [where I = "\<lambda>s. keeps_store w (snd s)"])
  show "keeps_store w (snd (state_of (image_onChunk c s)))" if "keeps_store w (snd s)" for c s
    using that by (rule keeps_store_image_onChunk)
  show "\<exists>s1. image_onDone e s = Normal s1 \<and> one_version_added w (snd s1)"
    if "keeps_store w (snd s)" for e s
    using that by (rule image_onDone_adds)
  show "keeps_store w (snd (v, w))"
    by simp
qed

lemma read_settles_cases:
  assumes "read_settles P r v d buffer body k w = (ph, w1)"
  shows "(ph = Ended \<and> ends_run w w1)
       \<or> (\<exists>v1 d1 b1 rest. ph = Reading v1 d1 b1 rest (Suc k) \<and> keeps_store w w1
            \<and> length rest < length body \<and> \<not> aborted (run_signal r) w)"
proof -
  let ?body = "if aborted (run_signal r) w then ReadFail abort_error # body else body"
  have "\<exists>oc od. (case pump_step P oc od k d buffer ?body (v, w) of
           Return out \<Rightarrow> \<exists>s1. out = Normal s1 \<and> one_version_added w (snd s1)
         | Continue c \<Rightarrow> keeps_store w (snd (snd (snd (snd c))))
             \<and> length (fst (snd (snd c))) < length ?body)
      \<and> read_settles P r v d buffer body k w =
         (case pump_step P oc od k d buffer ?body (v, w) of
            Return out \<Rightarrow> (Ended, finish (drop_vars out))
          | Continue (d1, buffer1, rest, s1) \<Rightarrow> (Reading (fst s1) d1 buffer1 rest (Suc k), snd s1))"
  proof (cases "run_text r")
    case True
    with pump_step_text [where P = P and k = k and d = d and buffer = buffer and body = ?body
        and v = v and w = w] show ?thesis
      by (intro exI [of _ text_onChunk] exI [of _ text_onDone])
         (simp add: read_settles_def Let_def)
  next
    case False
    with pump_step_image [where P = P and k = k and d = d and buffer = buffer and body = ?body
        and v = v and w = w] show ?thesis
      by (intro exI [of _ image_onChunk] exI [of _ image_onDone])
         (simp add: read_settles_def Let_def)
  qed
  then obtain oc od where inv: "case pump_step P oc od k d buffer ?body (v, w) of
           Return out \<Rightarrow> \<exists>s1. out = Normal s1 \<and> one_version_added w (snd s1)
         | Continue c \<Rightarrow> keeps_store w (snd (snd (snd (snd c))))
             \<and> length (fst (snd (snd c))) < length ?body"
    and eq: "read_settles P r v d buffer body k w =
         (case pump_step P oc od k d buffer ?body (v, w) of
            Return out \<Rightarrow> (Ended, finish (drop_vars out))
          | Continue (d1, buffer1, rest, s1) \<Rightarrow> (Reading (fst s1) d1 buffer1 rest (Suc k), snd s1))"
    by blast
  show ?thesis
  proof (cases "pump_step P oc od k d buffer ?body (v, w)")
    case (Return out)
    with inv obtain s1 where "out = Normal s1" "one_version_added w (snd s1)"
      by auto
    then have "handled w (drop_vars out)"
      by (simp add: handled_def drop_vars_def)
    from finish_ends_run [OF this] Return eq assms show ?thesis
      by auto
  next
    case (Continue c)
    obtain d1 b1 rest s1 where c: "c = (d1, b1, rest, s1)"
      by (cases c) auto
    have na: "\<not> aborted (run_signal r) w"
    proof
      assume "aborted (run_signal r) w"
      with Continue show False by simp
    qed
    with Continue c inv eq assms show ?thesis
      by auto
  qed
qed

lemma fetch_settles_cases:
  assumes "fetch_settles P r w = (ph, w1)"
  shows "(ph = Ended \<and> ends_run w w1)
       \<or> (\<exists>body. ph = Reading fresh_vars (decoder_init P) [] body 0 \<and> w1 = w)"
proof -
  have "handled w (Threw e w)" for e
    by (simp add: handled_def)
  from finish_ends_run [OF this] assms show ?thesis
    using finish_ends_run [OF handled_nonstreaming_receive [of w P]]
      finish_ends_run [OF handled_nonstreaming_image_receive [of w P]]
      finish_ends_run [OF handled_receive [of w P]]
      finish_ends_run [OF handled_image_receive [of w P]]
    by (auto simp: fetch_settles_def Let_def split: if_splits net.splits)
qed

lemma resume_idle:
  assumes "\<not> (i < length (runs a) \<and> in_progress (runs a ! i))"
  shows "resume P i a = a"
proof (cases "i < length (runs a)")
  case True
  with assms have ended: "run_phase (runs a ! i) = Ended"
    by (simp add: in_progress_def)
  then have "(runs a ! i)\<lparr>run_phase := Ended\<rparr> = runs a ! i"
    by (cases "runs a ! i") simp
  then have same: "(runs a)[i := (runs a ! i)\<lparr>run_phase := Ended\<rparr>] = runs a"
    by (simp only: list_update_id)
  have "resume P i a
      = a\<lparr>world_of := world_of a, runs := (runs a)[i := (runs a ! i)\<lparr>run_phase := Ended\<rparr>]\<rparr>"
    using True ended by (simp add: resume_def Let_def)
  also have "\<dots> = a\<lparr>world_of := world_of a, runs := runs a\<rparr>"
    by (simp only: same)
  also have "\<dots> = a"
    by simp
  finally show ?thesis .
next
  case False
  then show ?thesis
    by (simp add: resume_def)
qed

lemma resume_cases:
  assumes "i < length (runs a)" and "in_progress (runs a ! i)"
  shows "length (runs (resume P i a)) = length (runs a)
       \<and> (\<forall>j. j \<noteq> i \<longrightarrow> runs (resume P i a) ! j = runs a ! j)
       \<and> ((\<not> in_progress (runs (resume P i a) ! i)
             \<and> ends_run (world_of a) (world_of (resume P i a)))
          \<or> (in_progress (runs (resume P i a) ! i)
             \<and> keeps_store (world_of a) (world_of (resume P i a))))"
proof (cases "run_phase (runs a ! i)")
  case Fetching
  obtain ph w1 where fs: "fetch_settles P (runs a ! i) (world_of a) = (ph, w1)"
    by (cases "fetch_settles P (runs a ! i) (world_of a)")
  from fetch_settles_cases [OF fs] assms(1) Fetching fs show ?thesis
    by (auto simp: resume_def in_progress_def Let_def)
next
  case (Reading v d buffer body k)
  obtain ph w1 where rs: "read_settles P (runs a ! i) v d buffer body k (world_of a) = (ph, w1)"
    by (cases "read_settles P (runs a ! i) v d buffer body k (world_of a)")
  from read_settles_cases [OF rs] assms(1) Reading rs show ?thesis
    by (auto simp: resume_def in_progress_def Let_def)
next
  case Ended
  with assms(2) show ?thesis
    by (simp add: in_progress_def)
qed

lemma resume_run:
  "i < length (runs a) \<Longrightarrow>
   length (runs (resume P i a)) = length (runs a)
   \<and> run_net (runs (resume P i a) ! i) = run_net (runs a ! i)
   \<and> run_signal (runs (resume P i a) ! i) = run_signal (runs a ! i)
   \<and> run_text (runs (resume P i a) ! i) = run_text (runs a ! i)
   \<and> run_stream (runs (resume P i a) ! i) = run_stream (runs a ! i)"
  by (simp add: resume_def Let_def split: prod.splits)

lemma quiet_step:
  assumes "quiet i"
  shows "length (runs (step P i a)) = length (runs a)
       \<and> (\<forall>j < length (runs a). \<not> in_progress (runs a ! j)
             \<longrightarrow> runs (step P i a) ! j = runs a ! j)
       \<and> lastUserMessage (world_of (step P i a)) = lastUserMessage (world_of a)
       \<and> (regenerationHistory (world_of (step P i a)) = regenerationHistory (world_of a)
          \<or> (\<exists>k. i = Network k \<and> k < length (runs a) \<and> in_progress (runs a ! k)
                \<and> \<not> in_progress (runs (step P i a) ! k)
                \<and> ends_run (world_of a) (world_of (step P i a))))"
proof (cases i)
  case (Network k)
  show ?thesis
  proof (cases "k < length (runs a) \<and> in_progress (runs a ! k)")
    case True
    from resume_cases [of k a P] True Network show ?thesis
      by (auto simp: keeps_store_def ends_run_def appended_def)
  next
    case False
    from resume_idle [OF this, of P] Network show ?thesis
      by simp
  qed
qed (use assms in \<open>simp_all add: quiet_def handleStopGeneration_def abortActive_def
       hideTypingIndicator_def setStreamingState_def showPreviousResponse_def
       showNextResponse_def timer_fires_def Let_def split: option.splits\<close>)

lemma exec_snoc: "exec P (inputs @ [i]) a = step P i (exec P inputs a)"
  by (simp add: exec_def)

lemma start_run_begins:
  "runs (start_run u n a) = runs a @ [(runs (start_run u n a)) ! length (runs a)]
   \<and> run_phase (runs (start_run u n a) ! length (runs a)) = Fetching
   \<and> same_regen (world_of a) (world_of (start_run u n a))"
  by (simp add: start_run_def Let_def same_regen_def sendChatCompletion_def beginStream_def
        abortActive_def setStreamingState_def split: option.splits)

lemma regenerate_begins:
  assumes "lastUserMessage (world_of a) \<noteq> None" and "ui_key u \<noteq> []" and "ui_model u \<noteq> None"
  shows "runs (regenerateLastResponse u n a)
           = runs a @ [runs (regenerateLastResponse u n a) ! length (runs a)]
       \<and> run_phase (runs (regenerateLastResponse u n a) ! length (runs a)) = Fetching
       \<and> same_regen (world_of a) (world_of (regenerateLastResponse u n a))"
proof -
  define w0 where "w0 = showTypingIndicator
     (if messageHistory (world_of a) \<noteq> []
         \<and> m_role (last (messageHistory (world_of a))) = Assistant
      then (world_of a)\<lparr>messageHistory := butlast (messageHistory (world_of a)),
             chatMessages := remove_last is_assistant_div (chatMessages (world_of a))\<rparr>
      else world_of a)"
  have same: "same_regen (world_of a) w0"
    by (simp add: w0_def same_regen_def showTypingIndicator_def hideTypingIndicator_def Let_def)
  have eq: "regenerateLastResponse u n a = start_run u n (a\<lparr>world_of := w0\<rparr>)"
    using assms
    by (auto simp: w0_def regenerateLastResponse_def handleRegenerateResponse_def Let_def)
  from start_run_begins [of u n "a\<lparr>world_of := w0\<rparr>"] same show ?thesis
    unfolding eq by (auto simp: same_regen_def)
qed

lemma quiet_length:
  "list_all quiet inputs \<Longrightarrow> length (runs (exec P inputs a)) = length (runs a)"
proof (induction inputs rule: rev_induct)
  case Nil
  then show ?case by (simp add: exec_def)
next
  case (snoc i inputs)
  then have "quiet i" and "list_all quiet inputs"
    by simp_all
  with snoc.IH quiet_step [of i P "exec P inputs a"] show ?case
    by (simp add: exec_snoc)
qed

lemma run_stays_alone:
  assumes "list_all quiet inputs"
    and "length (runs a1) = Suc L"
    and "\<forall>j < L. \<not> in_progress (runs a1 ! j)"
    and "in_progress (runs (exec P inputs a1) ! L)"
  shows "(\<forall>j < L. \<not> in_progress (runs (exec P inputs a1) ! j))
       \<and> regenerationHistory (world_of (exec P inputs a1)) = regenerationHistory (world_of a1)
       \<and> lastUserMessage (world_of (exec P inputs a1)) = lastUserMessage (world_of a1)"
  using assms(1,4)
proof (induction inputs rule: rev_induct)
  case Nil
  with assms(3) show ?case
    by (simp add: exec_def)
next
  case (snoc i inputs)
  let ?b = "exec P inputs a1"
  from snoc.prems have q: "quiet i" and qs: "list_all quiet inputs"
    and after: "in_progress (runs (step P i ?b) ! L)"
    by (simp_all add: exec_snoc)
  from quiet_length [OF qs, of P a1] assms(2) have len: "length (runs ?b) = Suc L"
    by simp
  note st = quiet_step [OF q, of P ?b]
  have before: "in_progress (runs ?b ! L)"
  proof (rule ccontr)
    assume ended: "\<not> in_progress (runs ?b ! L)"
    with st len have "runs (step P i ?b) ! L = runs ?b ! L"
      by simp
    with after ended show False by simp
  qed
  from snoc.IH [OF qs before]
  have idle: "\<forall>j < L. \<not> in_progress (runs ?b ! j)"
    and hist: "regenerationHistory (world_of ?b) = regenerationHistory (world_of a1)"
    and lum: "lastUserMessage (world_of ?b) = lastUserMessage (world_of a1)"
    by simp_all
  have idle1: "\<forall>j < L. \<not> in_progress (runs (step P i ?b) ! j)"
    using st idle len by simp
  have hist1: "regenerationHistory (world_of (step P i ?b)) = regenerationHistory (world_of ?b)"
  proof (rule ccontr)
    assume "\<not> ?thesis"
    with st obtain k where k: "k < length (runs ?b)" "in_progress (runs ?b ! k)"
        "\<not> in_progress (runs (step P i ?b) ! k)"
      by blast
    with idle len have "k = L"
      by (metis less_Suc_eq)
    with k(3) after show False by simp
  qed
  from idle1 hist1 hist lum st show ?case
    by (simp add: exec_snoc)
qed


text \<open>
  Every run ends: each network event brings it closer to its end, so it has ended after
  \<open>steps_left\<close> of them, whatever else happened in between.
\<close>

lemma resume_progress:
  assumes "i < length (runs a)" and "in_progress (runs a ! i)"
  shows "steps_left (runs (resume P i a) ! i) < steps_left (runs a ! i)"
proof (cases "run_phase (runs a ! i)")
  case Fetching
  obtain ph w1 where fs: "fetch_settles P (runs a ! i) (world_of a) = (ph, w1)"
    by (cases "fetch_settles P (runs a ! i) (world_of a)")
  have ph: "run_phase (runs (resume P i a) ! i) = ph"
    using assms(1) Fetching fs by (simp add: resume_def Let_def)
  have net: "run_net (runs (resume P i a) ! i) = run_net (runs a ! i)"
    using resume_run [OF assms(1)] by simp
  from fs have "ph = Ended \<or> (\<exists>resp. run_net (runs a ! i) = Responded resp
      \<and> ph = Reading fresh_vars (decoder_init P) [] (r_body resp) 0)"
    by (auto simp: fetch_settles_def Let_def split: if_splits net.splits)
  with Fetching ph net show ?thesis
    by (auto simp: steps_left_def split: net.splits)
next
  case (Reading v d buffer body k)
  obtain ph w1 where rs: "read_settles P (runs a ! i) v d buffer body k (world_of a) = (ph, w1)"
    by (cases "read_settles P (runs a ! i) v d buffer body k (world_of a)")
  have ph: "run_phase (runs (resume P i a) ! i) = ph"
    using assms(1) Reading rs by (simp add: resume_def Let_def)
  from read_settles_cases [OF rs] Reading ph show ?thesis
    by (auto simp: steps_left_def)
next
  case Ended
  with assms(2) show ?thesis
    by (simp add: in_progress_def)
qed

lemma run_ends_within:
  "i < length (runs a) \<Longrightarrow> steps_left (runs a ! i) \<le> n \<Longrightarrow>
   \<not> in_progress (runs ((resume P i ^^ n) a) ! i)"
proof (induction n arbitrary: a)
  case 0
  then show ?case
    by (cases "run_phase (runs a ! i)")
       (simp_all add: steps_left_def in_progress_def split: net.splits)
next
  case (Suc n)
  have swap: "(resume P i ^^ Suc n) a = (resume P i ^^ n) (resume P i a)"
    by (simp add: funpow_swap1)
  from resume_run [OF Suc.prems(1), of P] Suc.prems(1)
  have len: "i < length (runs (resume P i a))"
    by simp
  have "steps_left (runs (resume P i a) ! i) \<le> n"
  proof (cases "in_progress (runs a ! i)")
    case True
    from resume_progress [OF Suc.prems(1) True, of P] Suc.prems(2) show ?thesis
      by simp
  next
    case False
    then have "steps_left (runs a ! i) = 0"
      by (simp add: in_progress_def steps_left_def)
    with resume_idle [where i = i and a = a and P = P] False show ?thesis
      by simp
  qed
  from Suc.IH [OF len this] show ?case
    unfolding swap .
qed

lemma run_ends:
  "i < length (runs a) \<Longrightarrow>
   run_phase (runs ((resume P i ^^ steps_left (runs a ! i)) a) ! i) = Ended"
  using run_ends_within [where i = i and a = a and n = "steps_left (runs a ! i)" and P = P]
  by (simp add: in_progress_def)

lemma resume_ended:
  "i < length (runs a) \<Longrightarrow> run_phase (runs a ! i) = Ended \<Longrightarrow> (resume P i ^^ n) a = a"
  by (induction n) (simp_all add: resume_idle in_progress_def)


text \<open>
  A run that nothing interrupts does what \<open>handleStreamingResponse\<close> and
  \<open>handleStreamingImageResponse\<close> do from the answer of the network on: reading the
  body one read at a time gives what \<open>readSSE\<close> gives on the whole body.
\<close>

lemma reading_uninterrupted:
  assumes "i < length (runs a)"
    and "run_phase (runs a ! i) = Reading v d buffer body k"
    and "\<not> aborted (run_signal (runs a ! i)) (world_of a)"
  shows "world_of ((resume P i ^^ Suc (length body)) a)
       = finish (drop_vars
           (if run_text (runs a ! i)
            then pump P text_onChunk text_onDone d buffer body (v, world_of a)
            else pump P image_onChunk image_onDone d buffer body (v, world_of a)))"
  using assms
proof (induction body arbitrary: a v d buffer k)
  case Nil
  then show ?case
    by (simp add: resume_def read_settles_def catches_callbacks Let_def
          text_onDone_def image_onDone_def split_beta)
next
  case (Cons r rs)
  let ?w = "world_of a"
  let ?run = "runs a ! i"
  have swap: "(resume P i ^^ Suc (length (r # rs))) a
      = (resume P i ^^ Suc (length rs)) (resume P i a)"
    by (simp add: funpow_swap1)
  obtain ph w1 where st: "read_settles P ?run v d buffer (r # rs) k ?w = (ph, w1)"
    by (cases "read_settles P ?run v d buffer (r # rs) k ?w")
  have after: "world_of (resume P i a) = w1" "run_phase (runs (resume P i a) ! i) = ph"
    using Cons.prems(1,2) st by (simp_all add: resume_def Let_def)
  from resume_run [OF Cons.prems(1), of P] Cons.prems(1)
  have len: "i < length (runs (resume P i a))"
    and sig: "run_signal (runs (resume P i a) ! i) = run_signal ?run"
    and mode: "run_text (runs (resume P i a) ! i) = run_text ?run"
    by simp_all
  show ?case
  proof (cases "run_text ?run")
    case True
    note unf = pump_unfold [where k = k and od = text_onDone and P = P and oc = text_onChunk and d = d
        and buffer = buffer and body = "r # rs" and s = "(v, ?w)",
        unfolded pump_callbacks]
    show ?thesis
    proof (cases "pump_step P text_onChunk text_onDone k d buffer (r # rs) (v, ?w)")
      case (Return out)
      with unf have "pump P text_onChunk text_onDone d buffer (r # rs) (v, ?w) = out"
        by simp
      moreover from Return st True Cons.prems(3) have "ph = Ended" "w1 = finish (drop_vars out)"
        by (simp_all add: read_settles_def Let_def)
      ultimately show ?thesis
        using True after resume_ended [OF len, where P = P and n = "Suc (length rs)"]
        unfolding swap by simp
    next
      case (Continue c)
      obtain d1 b1 rest s1 where c: "c = (d1, b1, rest, s1)"
        by (cases c) auto
      from Continue c have rest: "rest = rs"
        by (cases r) (auto split: prod.splits flow.splits)
      from Continue c st True Cons.prems(3)
      have ph: "ph = Reading (fst s1) d1 b1 rest (Suc k)" and w1: "w1 = snd s1"
        by (simp_all add: read_settles_def Let_def)
      from pump_step_text [where P = P and k = k and d = d and buffer = buffer and body = "r # rs"
          and v = v and w = ?w] Continue c
      have "keeps_store ?w (snd s1)"
        by simp
      with Cons.prems(3) w1 sig after have na: "\<not> aborted (run_signal (runs (resume P i a) ! i))
          (world_of (resume P i a))"
        by (auto simp: aborted_def keeps_store_def split: option.splits)
      from Cons.IH [OF len _ na, where v = "fst s1" and d = d1 and buffer = b1 and k = "Suc k"] after ph rest mode True w1
      have "world_of ((resume P i ^^ Suc (length rs)) (resume P i a))
          = finish (drop_vars (pump P text_onChunk text_onDone d1 b1 rs s1))"
        by simp
      moreover from unf Continue c rest
      have "pump P text_onChunk text_onDone d buffer (r # rs) (v, ?w)
          = pump P text_onChunk text_onDone d1 b1 rs s1"
        by simp
      ultimately show ?thesis
        using True unfolding swap by simp
    qed
  next
    case False
    note unf = pump_unfold [where k = k and od = image_onDone and P = P and oc = image_onChunk and d = d
        and buffer = buffer and body = "r # rs" and s = "(v, ?w)",
        unfolded pump_callbacks]
    show ?thesis
    proof (cases "pump_step P image_onChunk image_onDone k d buffer (r # rs) (v, ?w)")
      case (Return out)
      with unf have "pump P image_onChunk image_onDone d buffer (r # rs) (v, ?w) = out"
        by simp
      moreover from Return st False Cons.prems(3) have "ph = Ended" "w1 = finish (drop_vars out)"
        by (simp_all add: read_settles_def Let_def)
      ultimately show ?thesis
        using False after resume_ended [OF len, where P = P and n = "Suc (length rs)"]
        unfolding swap by simp
    next
      case (Continue c)
      obtain d1 b1 rest s1 where c: "c = (d1, b1, rest, s1)"
        by (cases c) auto
      from Continue c have rest: "rest = rs"
        by (cases r) (auto split: prod.splits flow.splits)
      from Continue c st False Cons.prems(3)
      have ph: "ph = Reading (fst s1) d1 b1 rest (Suc k)" and w1: "w1 = snd s1"
        by (simp_all add: read_settles_def Let_def)
      from pump_step_image [where P = P and k = k and d = d and buffer = buffer and body = "r # rs"
          and v = v and w = ?w] Continue c
      have "keeps_store ?w (snd s1)"
        by simp
      with Cons.prems(3) w1 sig after have na: "\<not> aborted (run_signal (runs (resume P i a) ! i))
          (world_of (resume P i a))"
        by (auto simp: aborted_def keeps_store_def split: option.splits)
      from Cons.IH [OF len _ na, where v = "fst s1" and d = d1 and buffer = b1 and k = "Suc k"] after ph rest mode False w1
      have "world_of ((resume P i ^^ Suc (length rs)) (resume P i a))
          = finish (drop_vars (pump P image_onChunk image_onDone d1 b1 rs s1))"
        by simp
      moreover from unf Continue c rest
      have "pump P image_onChunk image_onDone d buffer (r # rs) (v, ?w)
          = pump P image_onChunk image_onDone d1 b1 rs s1"
        by simp
      ultimately show ?thesis
        using False unfolding swap by simp
    qed
  qed
qed

lemma run_uninterrupted:
  assumes "i < length (runs a)" and "run_phase (runs a ! i) = Fetching"
    and "run_stream (runs a ! i)"
    and "\<not> aborted (run_signal (runs a ! i)) (world_of a)"
  shows "world_of ((resume P i ^^ steps_left (runs a ! i)) a)
       = finish (if run_text (runs a ! i)
                 then handleStreamingResponse_receive P (run_net (runs a ! i)) (world_of a)
                 else handleStreamingImageResponse_receive P (run_net (runs a ! i)) (world_of a))"
proof (cases "run_net (runs a ! i)")
  case (FetchRejected e)
  with assms show ?thesis
    by (simp add: steps_left_def resume_def fetch_settles_def
          handleStreamingResponse_receive_def handleStreamingImageResponse_receive_def Let_def)
next
  case (Responded resp)
  let ?a1 = "resume P i a"
  have steps: "steps_left (runs a ! i) = Suc (Suc (length (r_body resp)))"
    using assms(2) Responded by (simp add: steps_left_def)
  have swap: "(resume P i ^^ Suc (Suc (length (r_body resp)))) a
      = (resume P i ^^ Suc (length (r_body resp))) ?a1"
    by (simp only: funpow_Suc_right o_apply)
  from resume_run [OF assms(1), of P] assms(1)
  have len: "i < length (runs ?a1)"
    and sig: "run_signal (runs ?a1 ! i) = run_signal (runs a ! i)"
    and mode: "run_text (runs ?a1 ! i) = run_text (runs a ! i)"
    by simp_all
  show ?thesis
  proof (cases "r_ok resp \<and> indexOf (js ''text/event-stream'') (r_contentType resp) \<noteq> None")
    case True
    from True assms Responded
    have ph: "run_phase (runs ?a1 ! i)
        = Reading fresh_vars (decoder_init P) [] (r_body resp) 0"
      and w: "world_of ?a1 = world_of a"
      by (simp_all add: resume_def fetch_settles_def Let_def)
    from assms(4) sig w have na: "\<not> aborted (run_signal (runs ?a1 ! i)) (world_of ?a1)"
      by simp
    from reading_uninterrupted [OF len ph na, of P] True Responded mode w show ?thesis
      unfolding steps swap
      by (auto simp: handleStreamingResponse_receive_def
            handleStreamingImageResponse_receive_def readSSE_def)
  next
    case False
    from False assms Responded
    have ph: "run_phase (runs ?a1 ! i) = Ended"
      and w: "world_of ?a1 = finish (if run_text (runs a ! i)
                 then handleStreamingResponse_receive P (run_net (runs a ! i)) (world_of a)
                 else handleStreamingImageResponse_receive P (run_net (runs a ! i)) (world_of a))"
      by (auto simp: resume_def fetch_settles_def Let_def)
    from resume_ended [OF len ph, where n = "Suc (length (r_body resp))"] w show ?thesis
      unfolding steps swap by simp
  qed
qed


text \<open>Every input keeps the invariants of the session and of the cursor.\<close>

lemma finish_session:
  assumes "handled w out" and "session_ok w"
  shows "session_ok (finish out)"
proof -
  from session_ok_handled [OF assms] have "session_ok (state_of out)" .
  then show ?thesis
    by (cases out)
       (simp_all add: finish_def session_ok_def hideTypingIndicator_def setStreamingState_def
          handleError_def addMessageToChat_def addResponseToHistory_def cleanupStreamState_def
          Let_def split: option.splits)
qed

lemma session_ok_ends_run:
  "keeps_store w w1 \<Longrightarrow> session_ok w \<Longrightarrow> session_ok w1"
  by (simp add: keeps_store_def session_ok_def split: option.splits)

lemma session_ok_chat:
  "session_ok (w\<lparr>chatMessages := c\<rparr>) = session_ok w"
  "session_ok (w\<lparr>messageHistory := h\<rparr>) = session_ok w"
  "session_ok (w\<lparr>isStreaming := b\<rparr>) = session_ok w"
  "session_ok (w\<lparr>regenerationHistory := r\<rparr>) = session_ok w"
  "session_ok (w\<lparr>currentResponseIndex := x\<rparr>) = session_ok w"
  "session_ok (w\<lparr>lastUserMessage := l\<rparr>) = session_ok w"
  by (simp_all add: session_ok_def split: option.splits)

lemma session_ok_start_run:
  "session_ok (world_of a) \<Longrightarrow> session_ok (world_of (start_run u n a))"
proof -
  assume ok: "session_ok (world_of a)"
  then have "session_ok (setStreamingState True (world_of a))"
    by (simp add: setStreamingState_def session_ok_chat)
  from session_ok_sendChatCompletion [OF session_ok_beginStream [OF this], of True]
    session_ok_sendChatCompletion [OF this, of False]
  show ?thesis
    by (simp add: start_run_def Let_def)
qed

lemma session_ok_resume:
  assumes "session_ok (world_of a)"
  shows "session_ok (world_of (resume P i a))"
proof (cases "i < length (runs a) \<and> in_progress (runs a ! i)")
  case False
  from resume_idle [OF this] assms show ?thesis
    by simp
next
  case True
  then have i: "i < length (runs a)" and prog: "in_progress (runs a ! i)"
    by simp_all
  show ?thesis
  proof (cases "run_phase (runs a ! i)")
    case Fetching
    have th: "handled (world_of a) (Threw e (world_of a))" for e
      by (simp add: handled_def)
    from Fetching i assms show ?thesis
      using finish_session [OF th assms]
        finish_session [OF handled_nonstreaming_receive assms]
        finish_session [OF handled_nonstreaming_image_receive assms]
        finish_session [OF handled_receive assms]
        finish_session [OF handled_image_receive assms]
      by (auto simp: resume_def fetch_settles_def Let_def split: net.splits)
  next
    case (Reading v d buffer body k)
    let ?w = "world_of a"
    let ?body = "if aborted (run_signal (runs a ! i)) ?w then ReadFail abort_error # body else body"
    show ?thesis
    proof (cases "run_text (runs a ! i)")
      case True
      show ?thesis
      proof (cases "pump_step P text_onChunk text_onDone k d buffer ?body (v, ?w)")
        case (Return out)
        with pump_step_text [where P = P and k = k and d = d and buffer = buffer
            and body = ?body and v = v and w = ?w]
        obtain s1 where "out = Normal s1" "one_version_added ?w (snd s1)"
          by auto
        then have "handled ?w (drop_vars out)"
          by (simp add: handled_def drop_vars_def)
        from finish_session [OF this assms] Return Reading True i show ?thesis
          by (simp add: resume_def read_settles_def Let_def)
      next
        case (Continue c)
        with pump_step_text [where P = P and k = k and d = d and buffer = buffer
            and body = ?body and v = v and w = ?w]
        have "keeps_store ?w (snd (snd (snd (snd c))))"
          by simp
        from session_ok_ends_run [OF this assms] Continue Reading True i show ?thesis
          by (simp add: resume_def read_settles_def Let_def split_beta)
      qed
    next
      case False
      show ?thesis
      proof (cases "pump_step P image_onChunk image_onDone k d buffer ?body (v, ?w)")
        case (Return out)
        with pump_step_image [where P = P and k = k and d = d and buffer = buffer
            and body = ?body and v = v and w = ?w]
        obtain s1 where "out = Normal s1" "one_version_added ?w (snd s1)"
          by auto
        then have "handled ?w (drop_vars out)"
          by (simp add: handled_def drop_vars_def)
        from finish_session [OF this assms] Return Reading False i show ?thesis
          by (simp add: resume_def read_settles_def Let_def)
      next
        case (Continue c)
        with pump_step_image [where P = P and k = k and d = d and buffer = buffer
            and body = ?body and v = v and w = ?w]
        have "keeps_store ?w (snd (snd (snd (snd c))))"
          by simp
        from session_ok_ends_run [OF this assms] Continue Reading False i show ?thesis
          by (simp add: resume_def read_settles_def Let_def split_beta)
      qed
    qed
  next
    case Ended
    with prog show ?thesis
      by (simp add: in_progress_def)
  qed
qed

lemma session_ok_step:
  assumes "session_ok (world_of a)"
  shows "session_ok (world_of (step P i a))"
proof (cases i)
  case (Send u n)
  from session_ok_start_run [of "a\<lparr>world_of := w\<rparr>" u n for w] assms Send show ?thesis
    by (simp add: handleSendMessage_def Let_def storeLastUserMessage_def addMessageToChat_def
          showTypingIndicator_def hideTypingIndicator_def session_ok_chat)
next
  case (Regenerate u n)
  from session_ok_start_run [of "a\<lparr>world_of := w\<rparr>" u n for w] assms Regenerate show ?thesis
    by (simp add: regenerateLastResponse_def handleRegenerateResponse_def Let_def
          showTypingIndicator_def hideTypingIndicator_def session_ok_chat)
next
  case Stop
  with session_ok_abortActive [OF assms, of "Some (js ''Stopped by user'')" False] show ?thesis
    by (simp add: handleStopGeneration_def hideTypingIndicator_def setStreamingState_def
          session_ok_chat)
next
  case Previous
  with assms show ?thesis
    by (simp add: showPreviousResponse_def displayCurrentResponse_def
          updateChatHistoryWithCurrentResponse_def updateLastAssistantMessage_def
          session_ok_chat Let_def)
next
  case Next
  with assms show ?thesis
    by (simp add: showNextResponse_def displayCurrentResponse_def
          updateChatHistoryWithCurrentResponse_def updateLastAssistantMessage_def
          session_ok_chat Let_def)
next
  case Clear
  with assms show ?thesis
    by (simp add: clearChat_def clearRegenerationHistory_def session_ok_chat)
next
  case Timer
  with session_ok_timer_fires [OF assms] show ?thesis
    by simp
next
  case (Network k)
  with session_ok_resume [OF assms] show ?thesis
    by simp
qed

lemma cursor_ok_regen: "same_regen w w1 \<Longrightarrow> cursor_ok w \<Longrightarrow> cursor_ok w1"
  by (simp add: same_regen_def cursor_ok_def)

lemma cursor_ok_step:
  assumes "cursor_ok (world_of a)"
  shows "cursor_ok (world_of (step P i a))"
proof (cases i)
  case (Send u n)
  have "cursor_ok (world_of (start_run u n b))" if "cursor_ok (world_of b)" for b :: "'a app"
    using start_run_begins [of u n b] that by (auto intro: cursor_ok_regen)
  from this [of "a\<lparr>world_of := w\<rparr>" for w] assms Send show ?thesis
    by (simp add: handleSendMessage_def Let_def cursor_ok_def storeLastUserMessage_def
          addMessageToChat_def showTypingIndicator_def hideTypingIndicator_def)
next
  case (Regenerate u n)
  have "cursor_ok (world_of (start_run u n b))" if "cursor_ok (world_of b)" for b :: "'a app"
    using start_run_begins [of u n b] that by (auto intro: cursor_ok_regen)
  from this [of "a\<lparr>world_of := w\<rparr>" for w] assms Regenerate show ?thesis
    by (simp add: regenerateLastResponse_def handleRegenerateResponse_def Let_def cursor_ok_def
          showTypingIndicator_def hideTypingIndicator_def)
next
  case Stop
  with assms show ?thesis
    by (simp add: handleStopGeneration_def hideTypingIndicator_def setStreamingState_def
          abortActive_def cursor_ok_def Let_def split: option.splits)
next
  case Previous
  with cursor_ok_showPreviousResponse [OF assms] show ?thesis by simp
next
  case Next
  with cursor_ok_showNextResponse [OF assms] show ?thesis by simp
next
  case Clear
  then show ?thesis
    by (simp add: clearChat_def cursor_ok_def clearRegenerationHistory_def)
next
  case Timer
  with assms show ?thesis
    by (simp add: timer_fires_def abortActive_def cursor_ok_def Let_def split: option.splits)
next
  case (Network k)
  show ?thesis
  proof (cases "k < length (runs a) \<and> in_progress (runs a ! k)")
    case True
    from resume_cases [of k a P] True assms Network show ?thesis
      by (auto simp: ends_run_def keeps_store_def cursor_ok_def dest: cursor_ok_appended)
  next
    case False
    from resume_idle [OF this] assms Network show ?thesis
      by simp
  qed
qed


section \<open>Regeneration\<close>

text \<open>
  Claim C9, as amended. The user clicks the regeneration button on a slot of \<open>n\<close>
  versions, with a user turn stored, a key and a model set, and no run in progress. While
  the run of that click is in progress, whatever network events, stop clicks, timers and
  navigation clicks occur, the version list stays as it was. The network event that ends
  the run, however it ends, appends exactly one version and puts the cursor on it, at
  index \<open>n\<close>. One \<open>showPreviousResponse\<close> then moves the cursor to \<open>n - 1\<close> and
  writes the version that was last before into the last assistant element and the last
  assistant entry of the history, where there are such; the version at the old cursor
  \<open>c\<close> is under the cursor after \<open>n - c\<close> such calls.
\<close>

theorem regenerate_appends_one_version:
  assumes "lastUserMessage (world_of a) \<noteq> None" and "ui_key u \<noteq> []" and "ui_model u \<noteq> None"
    and "cursor_ok (world_of a)"
    and "list_all (\<lambda>r. run_phase r = Ended) (runs a)"
    and "list_all quiet inputs"
    and "b = exec P inputs (regenerateLastResponse u n a)"
    and "run_phase (runs b ! length (runs a)) \<noteq> Ended"
    and "run_phase (runs (step P (Network (length (runs a))) b) ! length (runs a)) = Ended"
    and "w1 = world_of (step P (Network (length (runs a))) b)"
  shows "regenerationHistory (world_of b) = regenerationHistory (world_of a)
       \<and> length (regenerationHistory w1) = Suc (length (regenerationHistory (world_of a)))
       \<and> butlast (regenerationHistory w1) = regenerationHistory (world_of a)
       \<and> currentResponseIndex w1 = int (length (regenerationHistory (world_of a)))
       \<and> regenerationHistory (showPreviousResponse w1) = regenerationHistory w1
       \<and> (regenerationHistory (world_of a) \<noteq> [] \<longrightarrow>
            showPreviousResponse w1
              = displayed (last (regenerationHistory (world_of a)))
                  (w1\<lparr>currentResponseIndex := int (length (regenerationHistory (world_of a))) - 1\<rparr>)
          \<and> currentResponseIndex
               ((showPreviousResponse
                   ^^ (length (regenerationHistory (world_of a))
                        - nat (currentResponseIndex (world_of a)))) w1)
              = currentResponseIndex (world_of a))"
proof -
  let ?L = "length (runs a)"
  let ?a1 = "regenerateLastResponse u n a"
  let ?n = "length (regenerationHistory (world_of a))"
  from regenerate_begins [OF assms(1-3), of n]
  have runs1: "runs ?a1 = runs a @ [runs ?a1 ! ?L]"
    and same1: "same_regen (world_of a) (world_of ?a1)"
    by simp_all
  from runs1 have "length (runs ?a1) = length (runs a @ [runs ?a1 ! ?L])"
    by simp
  then have len1: "length (runs ?a1) = Suc ?L"
    by simp
  have idle1: "\<forall>j < ?L. \<not> in_progress (runs ?a1 ! j)"
  proof (intro allI impI)
    fix j assume j: "j < ?L"
    with runs1 have "runs ?a1 ! j = runs a ! j"
      by (metis nth_append)
    with assms(5) j show "\<not> in_progress (runs ?a1 ! j)"
      by (simp add: in_progress_def list_all_length)
  qed
  from assms(7,8) have prog: "in_progress (runs (exec P inputs ?a1) ! ?L)"
    by (simp add: in_progress_def)
  from run_stays_alone [OF assms(6) len1 idle1 prog] assms(7) same1
  have hist: "regenerationHistory (world_of b) = regenerationHistory (world_of a)"
    and lum: "lastUserMessage (world_of b) = lastUserMessage (world_of a)"
    by (simp_all add: same_regen_def)
  from quiet_length [OF assms(6), of P ?a1] assms(7) len1 have lenb: "?L < length (runs b)"
    by simp
  from resume_cases [of ?L b P] lenb assms(8,9)
  have "ends_run (world_of b) (world_of (resume P ?L b))"
    by (simp add: in_progress_def)
  with assms(10) have app: "appended (world_of b) w1"
    by (simp add: ends_run_def)
  with hist have len: "length (regenerationHistory w1) = Suc ?n"
    and but: "butlast (regenerationHistory w1) = regenerationHistory (world_of a)"
    and cur: "currentResponseIndex w1 = int ?n"
    by (simp_all add: appended_def)
  have ok1: "cursor_ok w1"
    using len cur by (auto simp: cursor_ok_def)
  have same: "regenerationHistory (showPreviousResponse w1) = regenerationHistory w1"
    by (simp add: showPreviousResponse_def)
  have reach: "showPreviousResponse w1
        = displayed (last (regenerationHistory (world_of a)))
            (w1\<lparr>currentResponseIndex := int ?n - 1\<rparr>)
      \<and> currentResponseIndex
           ((showPreviousResponse ^^ (?n - nat (currentResponseIndex (world_of a)))) w1)
         = currentResponseIndex (world_of a)"
    if ne: "regenerationHistory (world_of a) \<noteq> []"
  proof -
    from ne have pos: "0 < ?n" by simp
    have "regenerationHistory w1 ! (?n - 1) = butlast (regenerationHistory w1) ! (?n - 1)"
      using len pos by (simp add: nth_butlast)
    also have "\<dots> = last (regenerationHistory (world_of a))"
      using but ne by (simp add: last_conv_nth)
    finally have nth: "regenerationHistory w1 ! (?n - 1) = last (regenerationHistory (world_of a))" .
    from pos have idx: "nat (int ?n - 1) = ?n - 1"
      by simp
    have one: "showPreviousResponse w1
        = displayed (last (regenerationHistory (world_of a)))
            (w1\<lparr>currentResponseIndex := int ?n - 1\<rparr>)"
      using pos cur len nth idx
      by (simp add: showPreviousResponse_def displayCurrentResponse_def
            updateChatHistoryWithCurrentResponse_def updateLastAssistantMessage_def
            displayed_def Let_def)
    from ne assms(4) have c: "0 \<le> currentResponseIndex (world_of a)"
        "currentResponseIndex (world_of a) < int ?n"
      by (simp_all add: cursor_ok_def)
    have "?n - nat (currentResponseIndex (world_of a)) \<le> nat (currentResponseIndex w1)"
      using cur by simp
    from showPrevious_repeated [OF ok1 this] cur c
    have "currentResponseIndex
           ((showPreviousResponse ^^ (?n - nat (currentResponseIndex (world_of a)))) w1)
         = currentResponseIndex (world_of a)"
      by simp
    with one show ?thesis by simp
  qed
  from hist len but cur same reach show ?thesis
    by blast
qed


lemma hello_read:
  "pump_step example_platform oc od k utf8_start [] [Value hello_stream] s
     = Return (catches (Suc k) od (od None (state_of (oc (Frame (delta_text (js ''lo'')))
             (state_of (oc (Frame (delta_text (js ''Hel''))) s))))))"
  by (simp add: example_defs hello_stream_def)

lemma example_decoder: "decoder_init example_platform = utf8_start"
  by (simp add: example_platform_def)

lemmas step_defs = exec_def handleSendMessage_def regenerateLastResponse_def
  handleRegenerateResponse_def start_run_def resume_def fetch_settles_def read_settles_def
  finish_def aborted_def hello_net_def event_stream_def example_ui_def
  storeLastUserMessage_def addMessageToChat_def showTypingIndicator_def hideTypingIndicator_def
  setStreamingState_def sendChatCompletion_def beginStream_def abortActive_def
  addResponseToHistory_def handleError_def cleanupStreamState_def drop_vars_def

lemmas text_defs = text_onChunk_def text_onDone_def text_frame_def delta_text_def
  delta_content_parts_def append_text_def create_div_once_def updateLastAssistantMessage_def
  is_assistant_div_def fresh_vars_def

lemma answered_state:
  "answered = \<lparr>world_of = \<lparr>currentController = Some 0, streamingActive = True,
       messageHistory = [\<lparr>m_role = User, m_content = js ''hi'', m_images = []\<rparr>,
          \<lparr>m_role = Assistant, m_content = js ''Hello'', m_images = []\<rparr>],
       chatMessages = [\<lparr>e_class = UserDiv, e_content = js ''hi'', e_images = []\<rparr>,
          \<lparr>e_class = AssistantDiv, e_content = js ''Hello'', e_images = []\<rparr>],
       isStreaming = False,
       regenerationHistory = [\<lparr>v_content = js ''Hello'', v_images = []\<rparr>],
       currentResponseIndex = 0,
       lastUserMessage = Some \<lparr>u_content = js ''hi'', u_images = []\<rparr>,
       log = [FetchIssued (Some 0)], controllers = 1, timers = 1\<rparr>,
     runs = [hello_run 0 Ended]\<rparr>"
proof -
  have rd: "pump_step example_platform text_onChunk text_onDone 0 utf8_start []
        [Value hello_stream] s
     = Return (text_onDone None (state_of (text_onChunk (Frame (delta_text (js ''lo'')))
             (state_of (text_onChunk (Frame (delta_text (js ''Hel''))) s)))))" for s
    by (simp only: hello_read catches_callbacks)
  show ?thesis
    by (simp add: answered_def hello_run_def initial_app_def initial_world_def step_defs rd
          text_defs example_decoder js_def Let_def del: pump_step.simps)
qed

lemma two_versions_store:
  "regenerationHistory two_versions
     = [\<lparr>v_content = js ''A'', v_images = []\<rparr>, \<lparr>v_content = js ''B'', v_images = []\<rparr>]"
  "currentResponseIndex two_versions = 1"
  "lastUserMessage two_versions = Some \<lparr>u_content = js ''hi'', u_images = []\<rparr>"
  by (simp_all add: two_versions_def one_turn_def addResponseToHistory_def addMessageToChat_def
        storeLastUserMessage_def initial_world_def Let_def)

lemma example_ui_ready: "ui_key example_ui \<noteq> []" "ui_model example_ui \<noteq> None"
  by (simp_all add: example_ui_def js_def)

lemma text_read:
  "pump_step example_platform text_onChunk text_onDone k utf8_start [] [Value hello_stream] s
     = Return (text_onDone None (state_of (text_onChunk (Frame (delta_text (js ''lo'')))
             (state_of (text_onChunk (Frame (delta_text (js ''Hel''))) s)))))"
  by (simp only: hello_read catches_callbacks)

lemmas run_defs = hello_run_def step_defs text_defs example_decoder js_def Let_def

lemma regenerating_state:
  "regenerating = \<lparr>world_of = \<lparr>currentController = Some 1, streamingActive = True,
       messageHistory = [\<lparr>m_role = User, m_content = js ''hi'', m_images = []\<rparr>],
       chatMessages = [\<lparr>e_class = UserDiv, e_content = js ''hi'', e_images = []\<rparr>,
          \<lparr>e_class = TypingIndicator, e_content = js ''Assistant is typing...'',
            e_images = []\<rparr>],
       isStreaming = True,
       regenerationHistory = [\<lparr>v_content = js ''Hello'', v_images = []\<rparr>],
       currentResponseIndex = 0,
       lastUserMessage = Some \<lparr>u_content = js ''hi'', u_images = []\<rparr>,
       log = [FetchIssued (Some 0), AbortCalled 0, FetchIssued (Some 1)],
       controllers = 2, timers = 2\<rparr>,
     runs = [hello_run 0 Ended,
       hello_run 1 (Reading fresh_vars utf8_start [] [Value hello_stream] 0)]\<rparr>"
  by (simp add: regenerating_def answered_state run_defs del: pump_step.simps)

lemma regenerated_state:
  "step example_platform (Network 1) regenerating
     = \<lparr>world_of = \<lparr>currentController = Some 1, streamingActive = True,
       messageHistory = [\<lparr>m_role = User, m_content = js ''hi'', m_images = []\<rparr>,
          \<lparr>m_role = Assistant, m_content = js ''Hello'', m_images = []\<rparr>],
       chatMessages = [\<lparr>e_class = UserDiv, e_content = js ''hi'', e_images = []\<rparr>,
          \<lparr>e_class = AssistantDiv, e_content = js ''Hello'', e_images = []\<rparr>],
       isStreaming = False,
       regenerationHistory = [\<lparr>v_content = js ''Hello'', v_images = []\<rparr>,
          \<lparr>v_content = js ''Hello'', v_images = []\<rparr>],
       currentResponseIndex = 1,
       lastUserMessage = Some \<lparr>u_content = js ''hi'', u_images = []\<rparr>,
       log = [FetchIssued (Some 0), AbortCalled 0, FetchIssued (Some 1)],
       controllers = 2, timers = 2\<rparr>,
     runs = [hello_run 0 Ended, hello_run 1 Ended]\<rparr>"
  by (simp add: regenerating_state text_read run_defs del: pump_step.simps)

theorem regenerate_appends_one_version_witness:
  "lastUserMessage (world_of answered) \<noteq> None \<and> ui_key example_ui \<noteq> []
   \<and> ui_model example_ui \<noteq> None \<and> cursor_ok (world_of answered)
   \<and> list_all (\<lambda>r. run_phase r = Ended) (runs answered)
   \<and> list_all quiet [Network 0, Network 1]
   \<and> run_phase (runs regenerating ! length (runs answered)) \<noteq> Ended
   \<and> run_phase (runs (step example_platform (Network (length (runs answered))) regenerating)
        ! length (runs answered)) = Ended
   \<and> regenerationHistory (world_of regenerating) = regenerationHistory (world_of answered)
   \<and> length (regenerationHistory (world_of (step example_platform (Network 1) regenerating))) = 2
   \<and> currentResponseIndex (world_of (step example_platform (Network 1) regenerating)) = 1
   \<and> currentResponseIndex (showPreviousResponse
        (world_of (step example_platform (Network 1) regenerating))) = 0
   \<and> map e_content (chatMessages (showPreviousResponse
        (world_of (step example_platform (Network 1) regenerating)))) = [js ''hi'', js ''Hello'']"
proof -
  have h1: "lastUserMessage (world_of answered) \<noteq> None"
    and h4: "cursor_ok (world_of answered)"
    and h5: "list_all (\<lambda>r. run_phase r = Ended) (runs answered)"
    and len: "length (runs answered) = 1"
    and n: "length (regenerationHistory (world_of answered)) = 1"
    and ne: "regenerationHistory (world_of answered) \<noteq> []"
    and la: "last (regenerationHistory (world_of answered)) = \<lparr>v_content = js ''Hello'', v_images = []\<rparr>"
    by (simp_all add: answered_state cursor_ok_def hello_run_def)
  have h6: "list_all quiet [Network 0, Network 1]"
    by (simp add: quiet_def)
  have h7: "regenerating = exec example_platform [Network 0, Network 1]
      (regenerateLastResponse example_ui hello_net answered)"
    by (rule regenerating_def)
  have h8: "run_phase (runs regenerating ! length (runs answered)) \<noteq> Ended"
    by (simp add: len regenerating_state hello_run_def)
  have h9: "run_phase (runs (step example_platform (Network (length (runs answered)))
      regenerating) ! length (runs answered)) = Ended"
    by (simp only: len One_nat_def [symmetric] regenerated_state) (simp add: hello_run_def)
  note inst = regenerate_appends_one_version [OF h1 example_ui_ready h4 h5 h6 h7 h8 h9 refl]
  from inst have a: "regenerationHistory (world_of regenerating)
      = regenerationHistory (world_of answered)"
    by blast
  from inst n have b: "length (regenerationHistory
      (world_of (step example_platform (Network 1) regenerating))) = 2"
    by (simp add: len)
  from inst n have c: "currentResponseIndex
      (world_of (step example_platform (Network 1) regenerating)) = 1"
    by (simp add: len)
  from inst ne n la have d: "showPreviousResponse
        (world_of (step example_platform (Network 1) regenerating))
      = displayed \<lparr>v_content = js ''Hello'', v_images = []\<rparr>
          ((world_of (step example_platform (Network 1) regenerating))
             \<lparr>currentResponseIndex := 0\<rparr>)"
    by (simp add: len)
  have e: "currentResponseIndex (showPreviousResponse
        (world_of (step example_platform (Network 1) regenerating))) = 0"
    unfolding d by (simp add: displayed_def)
  have f: "map e_content (chatMessages (showPreviousResponse
        (world_of (step example_platform (Network 1) regenerating)))) = [js ''hi'', js ''Hello'']"
    unfolding d
    by (simp add: displayed_def regenerated_state is_assistant_div_def
          del: step.simps One_nat_def)
  from h1 example_ui_ready h4 h5 h6 h8 h9 a b c e f show ?thesis
    by blast
qed


text \<open>
  The claim as stated fails when the cursor is not on the last version. With the versions
  \<open>A\<close> and \<open>B\<close> and \<open>A\<close> shown, a regeneration that runs to its end puts the
  cursor on index 2, and one \<open>showPreviousResponse\<close> shows \<open>B\<close>, not the \<open>A\<close>
  that was shown before.
\<close>

theorem one_step_back_misses_displayed_version:
  "map e_content (chatMessages (world_of shown_A)) = [js ''hi'', js ''A'']
   \<and> currentResponseIndex (world_of shown_A) = 0
   \<and> map v_content (regenerationHistory (world_of (exec example_platform
        [Regenerate example_ui hello_net, Network 0, Network 0] shown_A)))
       = [js ''A'', js ''B'', js ''Hello'']
   \<and> currentResponseIndex (showPreviousResponse (world_of (exec example_platform
        [Regenerate example_ui hello_net, Network 0, Network 0] shown_A))) = 1
   \<and> map e_content (chatMessages (showPreviousResponse (world_of (exec example_platform
        [Regenerate example_ui hello_net, Network 0, Network 0] shown_A))))
       = [js ''hi'', js ''B'']"
proof -
  have w: "world_of shown_A = \<lparr>currentController = None, streamingActive = False,
       messageHistory = [\<lparr>m_role = User, m_content = js ''hi'', m_images = []\<rparr>,
          \<lparr>m_role = Assistant, m_content = js ''A'', m_images = []\<rparr>],
       chatMessages = [\<lparr>e_class = UserDiv, e_content = js ''hi'', e_images = []\<rparr>,
          \<lparr>e_class = AssistantDiv, e_content = js ''A'', e_images = []\<rparr>],
       isStreaming = False,
       regenerationHistory = [\<lparr>v_content = js ''A'', v_images = []\<rparr>,
          \<lparr>v_content = js ''B'', v_images = []\<rparr>],
       currentResponseIndex = 0,
       lastUserMessage = Some \<lparr>u_content = js ''hi'', u_images = []\<rparr>,
       log = [], controllers = 0, timers = 0\<rparr>"
    by (simp add: shown_A_def two_versions_def one_turn_def showPreviousResponse_def
          displayCurrentResponse_def updateChatHistoryWithCurrentResponse_def
          updateLastAssistantMessage_def is_assistant_div_def addResponseToHistory_def
          addMessageToChat_def storeLastUserMessage_def initial_world_def Let_def js_def)
  have r: "runs shown_A = []"
    by (simp add: shown_A_def)
  have a: "shown_A = \<lparr>world_of = world_of shown_A, runs = []\<rparr>"
    by (simp add: shown_A_def)
  have e: "world_of (exec example_platform
        [Regenerate example_ui hello_net, Network 0, Network 0] shown_A)
     = \<lparr>currentController = Some 0, streamingActive = True,
       messageHistory = [\<lparr>m_role = User, m_content = js ''hi'', m_images = []\<rparr>,
          \<lparr>m_role = Assistant, m_content = js ''Hello'', m_images = []\<rparr>],
       chatMessages = [\<lparr>e_class = UserDiv, e_content = js ''hi'', e_images = []\<rparr>,
          \<lparr>e_class = AssistantDiv, e_content = js ''Hello'', e_images = []\<rparr>],
       isStreaming = False,
       regenerationHistory = [\<lparr>v_content = js ''A'', v_images = []\<rparr>,
          \<lparr>v_content = js ''B'', v_images = []\<rparr>, \<lparr>v_content = js ''Hello'', v_images = []\<rparr>],
       currentResponseIndex = 2,
       lastUserMessage = Some \<lparr>u_content = js ''hi'', u_images = []\<rparr>,
       log = [FetchIssued (Some 0)], controllers = 1, timers = 1\<rparr>"
    by (subst a) (simp add: w text_read run_defs remove_last.simps del: pump_step.simps)
  show ?thesis
    unfolding e
    by (simp add: w showPreviousResponse_def displayCurrentResponse_def
          updateChatHistoryWithCurrentResponse_def updateLastAssistantMessage_def
          is_assistant_div_def Let_def)
qed


text \<open>
  With a run in progress at the click, that run is aborted and still appends a version
  of its own when it ends: the slot, which was empty, ends with two versions. And after
  a regeneration whose stream is empty no assistant element is left on the page, so
  \<open>showPreviousResponse\<close> moves the cursor and shows nothing.
\<close>

lemma regenerate_during_a_run_adds_two:
  "regenerationHistory (world_of (exec example_platform [Send more_ui hello_net] answered)) = []
   \<and> map v_content (regenerationHistory (world_of (exec example_platform
        [Send more_ui hello_net, Network 1, Regenerate more_ui hello_net, Network 1,
         Network 2, Network 2] answered)))
       = [[], js ''Hello'']
   \<and> currentResponseIndex (world_of (exec example_platform
        [Send more_ui hello_net, Network 1, Regenerate more_ui hello_net, Network 1,
         Network 2, Network 2] answered)) = 1"
  by (simp add: answered_state more_ui_def text_read catches_callbacks run_defs
        del: pump_step.simps(3))

lemma empty_regeneration_shows_nothing:
  "map v_content (regenerationHistory (world_of (exec example_platform
        [Regenerate example_ui (Responded (event_stream [])), Network 1, Network 1] answered)))
       = [js ''Hello'', []]
   \<and> chatMessages (showPreviousResponse (world_of (exec example_platform
        [Regenerate example_ui (Responded (event_stream [])), Network 1, Network 1] answered)))
       = [\<lparr>e_class = UserDiv, e_content = js ''hi'', e_images = []\<rparr>]
   \<and> currentResponseIndex (showPreviousResponse (world_of (exec example_platform
        [Regenerate example_ui (Responded (event_stream [])), Network 1, Network 1] answered)))
       = 0"
  by (simp add: answered_state catches_callbacks run_defs remove_last.simps
        showPreviousResponse_def displayCurrentResponse_def
        updateChatHistoryWithCurrentResponse_def)


section \<open>The session\<close>

text \<open>
  While the controller of the session in progress is the current one, beginning a
  session calls \<open>abort()\<close> on it once, before the request of the new session is
  issued.
\<close>

lemma tracked_session_is_aborted_first:
  assumes "session_ok (world_of a)" and "currentController (world_of a) = Some c"
    and "ui_stream u"
  shows "log (world_of (start_run u n a))
           = log (world_of a) @ [AbortCalled c, FetchIssued (Some (controllers (world_of a)))]
       \<and> count_list (log (world_of (start_run u n a))) (AbortCalled c) = 1
       \<and> controllers (world_of a) \<noteq> c"
proof -
  from assms have fresh: "c < controllers (world_of a)"
    and unaborted: "AbortCalled c \<notin> set (log (world_of a))"
    by (simp_all add: session_ok_def)
  have lg: "log (world_of (start_run u n a))
           = log (world_of a) @ [AbortCalled c, FetchIssued (Some (controllers (world_of a)))]"
    using assms(2,3)
    by (simp add: start_run_def sendChatCompletion_def beginStream_def abortActive_def
          setStreamingState_def Let_def)
  from unaborted have "count_list (log (world_of (start_run u n a))) (AbortCalled c) = 1"
    by (simp add: lg count_list_0_iff)
  with lg fresh show ?thesis
    by simp
qed


text \<open>
  Claim C6, at the input where the code departs from it. The first turn has been
  answered; the user sends \<open>more\<close> (session 1) and, while that request is pending,
  clicks the regeneration button of the first answer (session 2, which aborts session
  1). The rejected request of session 1 reaches \<open>handleError\<close>, whose
  \<open>cleanupStreamState\<close> sets the current controller to \<open>null\<close>, though it is the
  controller of session 2 by now. The user regenerates again: session 3 begins while the
  request of session 2 is in flight, and \<open>abort()\<close> is not called on session 2, then
  or later; both responses are read, side by side.
\<close>

lemma untracked_state:
  "untracked = \<lparr>world_of = \<lparr>currentController = None, streamingActive = False,
       messageHistory = [\<lparr>m_role = User, m_content = js ''hi'', m_images = []\<rparr>,
          \<lparr>m_role = Assistant, m_content = js ''Hello'', m_images = []\<rparr>,
          \<lparr>m_role = User, m_content = js ''more'', m_images = []\<rparr>,
          \<lparr>m_role = Assistant, m_content = js ''Error: The user aborted a request.'',
            m_images = []\<rparr>],
       chatMessages = [\<lparr>e_class = UserDiv, e_content = js ''hi'', e_images = []\<rparr>,
          \<lparr>e_class = AssistantDiv, e_content = js ''Hello'', e_images = []\<rparr>,
          \<lparr>e_class = UserDiv, e_content = js ''more'', e_images = []\<rparr>,
          \<lparr>e_class = AssistantDiv, e_content = js ''Error: The user aborted a request.'',
            e_images = []\<rparr>],
       isStreaming = False,
       regenerationHistory = [\<lparr>v_content = js ''Error: The user aborted a request.'',
          v_images = []\<rparr>],
       currentResponseIndex = 0,
       lastUserMessage = Some \<lparr>u_content = js ''more'', u_images = []\<rparr>,
       log = [FetchIssued (Some 0), AbortCalled 0, FetchIssued (Some 1), AbortCalled 1,
          FetchIssued (Some 2)],
       controllers = 3, timers = 3\<rparr>,
     runs = [hello_run 0 Ended, hello_run 1 Ended, hello_run 2 Fetching]\<rparr>"
  by (simp add: untracked_def answered_state more_ui_def abort_error_def run_defs
        del: pump_step.simps)

theorem untracked_session_is_not_aborted:
  "currentController (world_of untracked) = None
   \<and> map run_phase (runs untracked) = [Ended, Ended, Fetching]
   \<and> run_signal (runs untracked ! 2) = Some 2
   \<and> \<not> aborted (Some 2) (world_of untracked)
   \<and> log (world_of (step example_platform (Regenerate more_ui hello_net) untracked))
       = log (world_of untracked) @ [FetchIssued (Some 3)]
   \<and> map run_phase (runs (exec example_platform
        [Regenerate more_ui hello_net, Network 2, Network 3] untracked))
       = [Ended, Ended, Reading fresh_vars utf8_start [] [Value hello_stream] 0,
          Reading fresh_vars utf8_start [] [Value hello_stream] 0]
   \<and> log (world_of (exec example_platform
        [Regenerate more_ui hello_net, Network 2, Network 3, Network 2, Network 3] untracked))
       = [FetchIssued (Some 0), AbortCalled 0, FetchIssued (Some 1), AbortCalled 1,
          FetchIssued (Some 2), FetchIssued (Some 3)]
   \<and> map v_content (regenerationHistory (world_of (exec example_platform
        [Regenerate more_ui hello_net, Network 2, Network 3, Network 2, Network 3] untracked)))
       = [js ''Error: The user aborted a request.'', js ''Hello'', js ''Hello'']"
  by (simp add: untracked_state more_ui_def text_read run_defs remove_last.simps
        del: pump_step.simps)


text \<open>The script's \<open>cleanupStreamState\<close> leaves the current controller alone.\<close>

lemma script_cleanup_keeps_controller:
  "currentController (page (script_cleanupStreamState s)) = currentController (page s)"
  by (simp add: script_cleanupStreamState_def)


section \<open>The deadline\<close>

lemma timer_ok_cleanup:
  "timer_ok s \<Longrightarrow> scheduled (script_cleanupStreamState s) = []
     \<and> timeoutHandle (script_cleanupStreamState s) = None"
  by (cases "timeoutHandle s")
     (auto simp: timer_ok_def script_cleanupStreamState_def clearTimeout_def list_all_iff
        filter_empty_conv)

lemma timer_ok_steps:
  "timer_ok s \<Longrightarrow> timer_ok (script_cleanupStreamState s)"
  "timer_ok s \<Longrightarrow> timer_ok (script_abortActive reason s)"
  "timer_ok s \<Longrightarrow> timer_ok (script_beginStream s)"
  "timer_ok s \<Longrightarrow> timer_ok (script_timer_fires t s)"
  "timer_ok s \<Longrightarrow> timer_ok (snd (state_of (script_onDone e (v, s))))"
proof -
  show c: "timer_ok (script_cleanupStreamState s)" if "timer_ok s" for s
    using timer_ok_cleanup [OF that] by (simp add: timer_ok_def)
  have p: "timer_ok (s\<lparr>page := w\<rparr>)" if "timer_ok s" for s w
    using that by (simp add: timer_ok_def)
  show a: "timer_ok (script_abortActive reason s)" if "timer_ok s" for s reason
    unfolding script_abortActive_def Let_def by (rule c [OF p [OF that]])
  show "timer_ok (script_beginStream s)" if "timer_ok s"
    using timer_ok_cleanup [OF p [OF that]] 
    by (simp add: script_beginStream_def script_abortActive_def Let_def timer_ok_def
          clearTimeout_def)
  show "timer_ok (script_timer_fires t s)" if "timer_ok s"
  proof -
    from that have "timer_ok (s\<lparr>scheduled := remove1 t (scheduled s)\<rparr>)"
      by (auto simp: timer_ok_def list_all_iff dest: notin_set_remove1)
    from a [OF this] that show ?thesis
      by (simp add: script_timer_fires_def)
  qed
  show "timer_ok (snd (state_of (script_onDone e (v, s))))" if "timer_ok s"
    unfolding script_onDone_def Let_def by (simp add: c [OF p [OF that]])
qed

lemma script_onDone_clears:
  assumes "timer_ok s"
  shows "scheduled (snd (state_of (script_onDone e (v, s)))) = []
       \<and> timeoutHandle (snd (state_of (script_onDone e (v, s)))) = None
       \<and> script_timer_fires t (snd (state_of (script_onDone e (v, s))))
           = snd (state_of (script_onDone e (v, s)))"
proof -
  have p: "timer_ok (s\<lparr>page := w\<rparr>)" for w
    using assms by (simp add: timer_ok_def)
  have "scheduled (snd (state_of (script_onDone e (v, s)))) = []
       \<and> timeoutHandle (snd (state_of (script_onDone e (v, s)))) = None"
    unfolding script_onDone_def Let_def by (simp add: timer_ok_cleanup [OF p])
  then show ?thesis
    by (simp add: script_timer_fires_def)
qed

lemma timer_fires_aborts:
  assumes "currentController w = Some c" and "0 < timers w"
  shows "timer_fires w = w\<lparr>timers := timers w - 1, log := log w @ [AbortCalled c],
           currentController := None, streamingActive := False\<rparr>"
  using assms by (simp add: timer_fires_def abortActive_def Let_def js_def)

lemma abort_error_message: "err_message abort_error \<noteq> []"
  by (simp add: abort_error_def js_def)

lemma aborted_run_ends:
  assumes "i < length (runs a)" and "run_phase (runs a ! i) \<noteq> Ended"
    and "run_signal (runs a ! i) = Some c" and "AbortCalled c \<in> set (log (world_of a))"
  shows "run_phase (runs (resume P i a) ! i) = Ended
       \<and> regenerationHistory (world_of (resume P i a))
           = regenerationHistory (world_of a) @ [stored_after_abort (runs a ! i)]
       \<and> currentResponseIndex (world_of (resume P i a))
           = int (length (regenerationHistory (world_of a)))
       \<and> log (world_of (resume P i a)) = log (world_of a)"
proof (cases "run_phase (runs a ! i)")
  case Fetching
  with assms(1,3,4) abort_error_message show ?thesis
    by (simp add: resume_def fetch_settles_def aborted_def stored_after_abort_def finish_def
          handleNonStreamingResponse_receive_def handleNonStreamingImageResponse_receive_def
          handleError_def addResponseToHistory_def addMessageToChat_def hideTypingIndicator_def
          setStreamingState_def cleanupStreamState_def Let_def)
next
  case (Reading v d buffer body k)
  with assms(1,3,4) show ?thesis
    by (simp add: resume_def read_settles_def aborted_def stored_after_abort_def finish_def
          catches_callbacks text_onDone_def image_onDone_def drop_vars_def
          addResponseToHistory_def updateLastAssistantMessage_def hideTypingIndicator_def
          setStreamingState_def Let_def)
next
  case Ended
  with assms(2) show ?thesis by simp
qed


lemma timer_ok_page: "timer_ok (s\<lparr>page := w\<rparr>) = timer_ok s"
  by (simp add: timer_ok_def)

lemma timer_ok_onChunk:
  "timer_ok (snd s) \<Longrightarrow> timer_ok (snd (state_of (script_onChunk c s)))"
  by (cases s)
     (auto simp: script_onChunk_def timer_ok_page Let_def
        split: chunk.splits payload.splits prod.splits)

lemma script_run_clears:
  assumes "timer_ok s"
  shows "scheduled (state_of (script_runChat_receive P n s)) = []"
proof (cases n)
  case (FetchRejected e)
  with timer_ok_cleanup [OF assms] show ?thesis
    by (simp add: script_runChat_receive_def)
next
  case (Responded r)
  let ?s0 = "(fresh_vars, s\<lparr>page := hideTypingIndicator (page s)\<rparr>)"
  have "(\<exists>s1. readSSE P r script_onChunk script_onDone ?s0 = Normal s1
            \<and> scheduled (snd s1) = [])
      \<or> (\<exists>e s1. readSSE P r script_onChunk script_onDone ?s0 = Threw e s1
            \<and> timer_ok (snd s1))"
  proof (rule readSSE_inv [where I = "\<lambda>s. timer_ok (snd s)"])
    show "timer_ok (snd (state_of (script_onChunk c s)))" if "timer_ok (snd s)" for c s
      using that by (rule timer_ok_onChunk)
    show "\<exists>s1. script_onDone e s = Normal s1 \<and> scheduled (snd s1) = []"
      if "timer_ok (snd s)" for e s
    proof -
      obtain v sc where s: "s = (v, sc)" by (cases s)
      with that have "timer_ok sc" by simp
      from script_onDone_clears [OF this, of e v] s show ?thesis
        by (cases "script_onDone e (v, sc)") (auto simp: script_onDone_def Let_def)
    qed
    show "timer_ok (snd ?s0)"
      using assms by (simp add: timer_ok_page)
  qed
  then show ?thesis
  proof
    assume "\<exists>s1. readSSE P r script_onChunk script_onDone ?s0 = Normal s1
            \<and> scheduled (snd s1) = []"
    with Responded show ?thesis
      by (auto simp: script_runChat_receive_def)
  next
    assume "\<exists>e s1. readSSE P r script_onChunk script_onDone ?s0 = Threw e s1
            \<and> timer_ok (snd s1)"
    then obtain e s1 where "readSSE P r script_onChunk script_onDone ?s0 = Threw e s1"
      and "timer_ok (snd s1)"
      by blast
    with timer_ok_cleanup [of "snd s1"] Responded show ?thesis
      by (simp add: script_runChat_receive_def)
  qed
qed

text \<open>
  Claim C7, as amended. In the script a stream that has been read to its end, and already
  its completion callback, ends with \<open>cleanupStreamState\<close>, which clears the deadline
  timer: after it no timer is scheduled, and the firing of a timer that is not scheduled
  changes nothing. A timeout does not keep a run from finalizing. In the modules, when a
  deadline timer fires while the controller of a run in progress is the current one,
  \<open>abort()\<close> is called on it, once; the promise the run waits for is then rejected,
  and the run ends by storing one version, with the cursor on it: the text and the images
  it has accumulated if it was reading the response, the error message if it was waiting
  for the \<open>fetch\<close>.
\<close>

theorem deadline_and_completion:
  assumes "timer_ok s"
    and "session_ok (world_of a)"
    and "i < length (runs a)" and "run_phase (runs a ! i) \<noteq> Ended"
    and "run_signal (runs a ! i) = Some c" and "currentController (world_of a) = Some c"
    and "0 < timers (world_of a)"
  shows "scheduled (snd (state_of (script_onDone e (v, s)))) = []
       \<and> script_timer_fires t (snd (state_of (script_onDone e (v, s))))
           = snd (state_of (script_onDone e (v, s)))
       \<and> scheduled (state_of (script_runChat_receive Q n s)) = []
       \<and> script_timer_fires t (state_of (script_runChat_receive Q n s))
           = state_of (script_runChat_receive Q n s)
       \<and> log (world_of (step P Timer a)) = log (world_of a) @ [AbortCalled c]
       \<and> run_phase (runs (exec P [Timer, Network i] a) ! i) = Ended
       \<and> regenerationHistory (world_of (exec P [Timer, Network i] a))
           = regenerationHistory (world_of a) @ [stored_after_abort (runs a ! i)]
       \<and> currentResponseIndex (world_of (exec P [Timer, Network i] a))
           = int (length (regenerationHistory (world_of a)))
       \<and> log (world_of (exec P [Timer, Network i] a)) = log (world_of a) @ [AbortCalled c]
       \<and> count_list (log (world_of (exec P [Timer, Network i] a))) (AbortCalled c) = 1"
proof -
  let ?a1 = "step P Timer a"
  from timer_fires_aborts [OF assms(6,7)]
  have w1: "world_of ?a1 = (world_of a)\<lparr>timers := timers (world_of a) - 1,
        log := log (world_of a) @ [AbortCalled c], currentController := None,
        streamingActive := False\<rparr>"
    and r1: "runs ?a1 = runs a"
    by simp_all
  from assms(3-5) r1 w1
  have "i < length (runs ?a1)" "run_phase (runs ?a1 ! i) \<noteq> Ended"
    "run_signal (runs ?a1 ! i) = Some c" "AbortCalled c \<in> set (log (world_of ?a1))"
    by simp_all
  from aborted_run_ends [OF this, of P] r1 w1
  have ended: "run_phase (runs (resume P i ?a1) ! i) = Ended
       \<and> regenerationHistory (world_of (resume P i ?a1))
           = regenerationHistory (world_of a) @ [stored_after_abort (runs a ! i)]
       \<and> currentResponseIndex (world_of (resume P i ?a1))
           = int (length (regenerationHistory (world_of a)))
       \<and> log (world_of (resume P i ?a1)) = log (world_of a) @ [AbortCalled c]"
    by simp
  from assms(2,6) have "AbortCalled c \<notin> set (log (world_of a))"
    by (simp add: session_ok_def)
  then have once: "count_list (log (world_of a) @ [AbortCalled c]) (AbortCalled c) = 1"
    by (simp add: count_list_0_iff)
  have ex: "exec P [Timer, Network i] a = resume P i ?a1"
    by (simp add: exec_def)
  from script_run_clears [OF assms(1), of Q n]
  have "scheduled (state_of (script_runChat_receive Q n s)) = []
       \<and> script_timer_fires t (state_of (script_runChat_receive Q n s))
           = state_of (script_runChat_receive Q n s)"
    by (simp add: script_timer_fires_def)
  with ended once show ?thesis
    using script_onDone_clears [OF assms(1), of e v t] w1
    unfolding ex by simp
qed

lemma hel_read:
  "pump_step example_platform oc od k utf8_start []
       [Value (ascii_bytes (stream_text [hel_frame])), rest] s
     = Continue (utf8_start, [], [rest], state_of (oc (Frame (delta_text (js ''Hel''))) s))"
  by (simp add: example_defs stream_text_def hel_frame_def)

lemma half_read_state:
  "half_read = \<lparr>world_of = \<lparr>currentController = Some 0, streamingActive = True,
       messageHistory = [\<lparr>m_role = User, m_content = js ''hi'', m_images = []\<rparr>,
          \<lparr>m_role = Assistant, m_content = [], m_images = []\<rparr>],
       chatMessages = [\<lparr>e_class = UserDiv, e_content = js ''hi'', e_images = []\<rparr>,
          \<lparr>e_class = TypingIndicator, e_content = js ''Assistant is typing...'',
            e_images = []\<rparr>,
          \<lparr>e_class = AssistantDiv, e_content = js ''Hel'', e_images = []\<rparr>],
       isStreaming = True, regenerationHistory = [], currentResponseIndex = - 1,
       lastUserMessage = Some \<lparr>u_content = js ''hi'', u_images = []\<rparr>,
       log = [FetchIssued (Some 0)], controllers = 1, timers = 1\<rparr>,
     runs = [slow_run (Reading \<lparr>assistantMessageDiv = Some 2, assistantContent = js ''Hel'',
         assistantImages = []\<rparr> utf8_start []
         [Value (ascii_bytes (stream_text [lo_frame, js ''data: [DONE]'']))] 1)]\<rparr>"
  by (simp add: half_read_def slow_net_def slow_run_def initial_app_def initial_world_def
        hel_read step_defs text_defs example_decoder js_def Let_def del: pump_step.simps)

lemma script_start_timer:
  "timeoutHandle script_start = Some 0" "scheduled script_start = [0]"
  by (simp_all add: script_start_def script_beginStream_def script_abortActive_def
        script_cleanupStreamState_def clearTimeout_def Let_def one_turn_def
        addMessageToChat_def storeLastUserMessage_def initial_world_def)

theorem deadline_and_completion_witness:
  "timer_ok script_start \<and> session_ok (world_of half_read) \<and> 0 < length (runs half_read)
   \<and> run_phase (runs half_read ! 0) \<noteq> Ended
   \<and> run_signal (runs half_read ! 0) = Some 0
   \<and> currentController (world_of half_read) = Some 0
   \<and> 0 < timers (world_of half_read)
   \<and> scheduled (snd (state_of (script_onDone None (fresh_vars, script_start)))) = []
   \<and> script_timer_fires 0 (snd (state_of (script_onDone None (fresh_vars, script_start))))
       = snd (state_of (script_onDone None (fresh_vars, script_start)))
   \<and> scheduled (state_of (script_runChat_receive example_platform hello_net script_start)) = []
   \<and> log (world_of (exec example_platform [Timer, Network 0] half_read))
       = [FetchIssued (Some 0), AbortCalled 0]
   \<and> regenerationHistory (world_of (exec example_platform [Timer, Network 0] half_read))
       = [\<lparr>v_content = js ''Hel'', v_images = []\<rparr>]"
proof -
  have h1: "timer_ok script_start"
    by (simp add: timer_ok_def script_start_timer)
  have h2: "session_ok (world_of half_read)"
    by (simp add: half_read_state session_ok_def created_before_def)
  have h: "0 < length (runs half_read)" "run_phase (runs half_read ! 0) \<noteq> Ended"
    "run_signal (runs half_read ! 0) = Some 0" "currentController (world_of half_read) = Some 0"
    "0 < timers (world_of half_read)"
    by (simp_all add: half_read_state slow_run_def)
  note inst = deadline_and_completion [OF h1 h2 h, where P = example_platform and e = None
      and v = fresh_vars and t = 0 and Q = example_platform and n = hello_net]
  have st: "stored_after_abort (runs half_read ! 0) = \<lparr>v_content = js ''Hel'', v_images = []\<rparr>"
    by (simp add: stored_after_abort_def half_read_state slow_run_def)
  have l: "log (world_of half_read) = [FetchIssued (Some 0)]"
    "regenerationHistory (world_of half_read) = []"
    by (simp_all add: half_read_state)
  from inst st l have "log (world_of (exec example_platform [Timer, Network 0] half_read))
       = [FetchIssued (Some 0), AbortCalled 0]"
    "regenerationHistory (world_of (exec example_platform [Timer, Network 0] half_read))
       = [\<lparr>v_content = js ''Hel'', v_images = []\<rparr>]"
    by simp_all
  with inst h1 h2 h show ?thesis
    by blast
qed

text \<open>
  The claim as stated fails: the deadline passes when the first chunk of the response
  has been read, the timer aborts the request, the next read is rejected, and the
  completion callback still stores a version, with the text read so far.
\<close>

theorem finalize_after_timeout:
  "log (world_of (exec example_platform
        [Send example_ui slow_net, Network 0, Network 0, Timer] initial_app))
     = [FetchIssued (Some 0), AbortCalled 0]
   \<and> regenerationHistory (world_of (exec example_platform
        [Send example_ui slow_net, Network 0, Network 0, Timer] initial_app)) = []
   \<and> regenerationHistory (world_of (exec example_platform
        [Send example_ui slow_net, Network 0, Network 0, Timer, Network 0] initial_app))
     = [\<lparr>v_content = js ''Hel'', v_images = []\<rparr>]
   \<and> messageHistory (world_of (exec example_platform
        [Send example_ui slow_net, Network 0, Network 0, Timer, Network 0] initial_app))
     = [\<lparr>m_role = User, m_content = js ''hi'', m_images = []\<rparr>,
        \<lparr>m_role = Assistant, m_content = js ''Hel'', m_images = []\<rparr>]"
proof -
  have split: "exec example_platform ([Send example_ui slow_net, Network 0, Network 0] @ rest)
      initial_app = exec example_platform rest half_read" for rest
    by (simp add: exec_def half_read_def)
  have a: "exec example_platform [Send example_ui slow_net, Network 0, Network 0, Timer]
      initial_app = exec example_platform [Timer] half_read"
    using split [of "[Timer]"] by simp
  have b: "exec example_platform [Send example_ui slow_net, Network 0, Network 0, Timer,
      Network 0] initial_app = exec example_platform [Timer, Network 0] half_read"
    using split [of "[Timer, Network 0]"] by simp
  show ?thesis
    unfolding a b
    by (simp add: half_read_state slow_run_def exec_def timer_fires_def abortActive_def
          resume_def read_settles_def aborted_def catches_callbacks finish_def drop_vars_def
          text_onDone_def addResponseToHistory_def updateLastAssistantMessage_def
          hideTypingIndicator_def setStreamingState_def js_def Let_def)
qed


text \<open>
  In the modules the timer is never cleared and a run that ends leaves its controller in
  place, so the timer of a stream that has ended still calls \<open>abort()\<close> on it.
\<close>

lemma timer_after_normal_end:
  "run_phase (runs answered ! 0) = Ended
   \<and> log (world_of (step example_platform Timer answered))
       = [FetchIssued (Some 0), AbortCalled 0]"
  by (simp add: answered_state hello_run_def timer_fires_def abortActive_def Let_def js_def)


end
